theory Spec2Isabelle
  imports Main "HOL-Library.AList"
begin

unbundle bit_operations_syntax

section \<open>Python values: errors, digits, slices\<close>

text \<open>
  The program is one Python module, \<^verbatim>\<open>datalink.py\<close>. Exceptions are values of
  \<open>error + 'a\<close>; the two exceptions the modelled code can raise are \<^verbatim>\<open>ValueError\<close>
  (from \<^verbatim>\<open>int\<close>) and \<^verbatim>\<open>IndexError\<close> (from list indexing).

  Bit strings and frames are \<open>string\<close>s. A payload is a Python string whose characters
  are read by \<^verbatim>\<open>ord\<close> and written by \<^verbatim>\<open>chr\<close>, so it is a list of code points.
\<close>

datatype error = ValueError | IndexError

type_synonym pystr = "nat list"

definition pbind :: "error + 'a \<Rightarrow> ('a \<Rightarrow> error + 'b) \<Rightarrow> error + 'b" where
  "pbind r f = (case r of Inl e \<Rightarrow> Inl e | Inr x \<Rightarrow> f x)"

definition is_digit :: "char \<Rightarrow> bool" where
  "is_digit c = (48 \<le> (of_char c :: nat) \<and> (of_char c :: nat) \<le> 57)"

definition is_bit :: "char \<Rightarrow> bool" where
  "is_bit c = (c = CHR ''0'' \<or> c = CHR ''1'')"

definition digit_value :: "char \<Rightarrow> nat" where
  "digit_value c = of_char c - 48"

definition digit_char :: "nat \<Rightarrow> char" where
  "digit_char d = char_of (48 + d)"

text \<open>\<^verbatim>\<open>int(b)\<close> for a one-character string \<^verbatim>\<open>b\<close>: among the characters of
  \<open>char\<close> only the ten decimal digits convert.\<close>

definition int_of_char :: "char \<Rightarrow> error + nat" where
  "int_of_char b = (if is_digit b then Inr (digit_value b) else Inl ValueError)"

text \<open>\<^verbatim>\<open>[int(b) for b in s]\<close>\<close>

primrec int_list :: "string \<Rightarrow> error + nat list" where
  "int_list [] = Inr []"
| "int_list (b # bs) =
     pbind (int_of_char b) (\<lambda>v. pbind (int_list bs) (\<lambda>vs. Inr (v # vs)))"

text \<open>\<^verbatim>\<open>str(b)\<close> for a non-negative integer: its decimal digits.\<close>

fun str_nat :: "nat \<Rightarrow> string" where
  "str_nat n = (if n < 10 then [digit_char n]
                else str_nat (n div 10) @ [digit_char (n mod 10)])"

declare str_nat.simps [simp del]

text \<open>\<^verbatim>\<open>int(s)\<close> and \<^verbatim>\<open>int(s, 2)\<close> on the strings that reach them here. Both are
  called on strings of decimal digits only (\<^verbatim>\<open>check_crc\<close> joins \<^verbatim>\<open>str\<close> of
  non-negative integers; \<^verbatim>\<open>unframe_data\<close> slices a frame every character of which
  \<^verbatim>\<open>check_crc\<close> has already converted with \<^verbatim>\<open>int\<close>). On such strings Python raises
  \<^verbatim>\<open>ValueError\<close> for the empty string and for a digit the base does not have; in base
  ten CPython (from version 3.11 on) raises it also for more than 4300 digits.\<close>

definition digits_value :: "nat \<Rightarrow> string \<Rightarrow> nat" where
  "digits_value base s = foldl (\<lambda>a c. base * a + digit_value c) 0 s"

definition py_int :: "string \<Rightarrow> error + nat" where
  "py_int s = (if s \<noteq> [] \<and> list_all is_digit s \<and> length s \<le> 4300
               then Inr (digits_value 10 s)
               else Inl ValueError)"

definition py_int2 :: "string \<Rightarrow> error + nat" where
  "py_int2 s = (if s \<noteq> [] \<and> list_all is_bit s then Inr (digits_value 2 s)
                else Inl ValueError)"

text \<open>Slices: a negative bound counts from the end, and every bound is clipped to the
  list. \<open>py_slice xs a b\<close> is \<^verbatim>\<open>xs[a:b]\<close>, \<open>py_slice_from xs a\<close> is \<^verbatim>\<open>xs[a:]\<close>.\<close>

definition slice_bound :: "int \<Rightarrow> nat \<Rightarrow> nat" where
  "slice_bound k len = (if k < 0 then nat (int len + k) else min (nat k) len)"

definition py_slice :: "'a list \<Rightarrow> int \<Rightarrow> int \<Rightarrow> 'a list" where
  "py_slice xs a b =
     (let i = slice_bound a (length xs); j = slice_bound b (length xs)
      in take (j - i) (drop i xs))"

definition py_slice_from :: "'a list \<Rightarrow> int \<Rightarrow> 'a list" where
  "py_slice_from xs a = drop (slice_bound a (length xs)) xs"

section \<open>The CRC functions\<close>

text \<open>
  The inner loop \<^verbatim>\<open>for j in range(n): temp[i + j] = temp[i + j] ^ polynomial[j]\<close> and
  the outer loop \<^verbatim>\<open>for i in range(k): if temp[i] == 1: ...\<close>. In \<^verbatim>\<open>generate_crc\<close>
  the list has \<open>len(data) + n - 1\<close> entries and \<open>k = len(data)\<close>; in \<^verbatim>\<open>check_crc\<close>
  \<open>k = len - n + 1\<close>. With \<open>n \<ge> 1\<close> every index \<open>i + j\<close> is below the length of the
  list in both, so no access is out of range; \<open>n = 0\<close> is treated in \<open>check_crc\<close>.
\<close>

definition xor_polynomial :: "nat list \<Rightarrow> nat list \<Rightarrow> nat \<Rightarrow> nat list" where
  "xor_polynomial temp polynomial i =
     fold (\<lambda>j t. t[i + j := (t ! (i + j)) XOR (polynomial ! j)]) [0..<length polynomial] temp"

definition divide_loop :: "nat list \<Rightarrow> nat list \<Rightarrow> nat \<Rightarrow> nat list" where
  "divide_loop temp polynomial k =
     fold (\<lambda>i t. if t ! i = 1 then xor_polynomial t polynomial i else t) [0..<k] temp"

definition generate_crc :: "string \<Rightarrow> string \<Rightarrow> error + string" where
  "generate_crc data_bits polynomial_bits =
     pbind (int_list data_bits) (\<lambda>data.
     pbind (int_list polynomial_bits) (\<lambda>polynomial.
       let n = length polynomial;
           temp_data = divide_loop (data @ replicate (n - 1) 0) polynomial (length data)
       in Inr (concat (map str_nat (drop (length data) temp_data)))))"

text \<open>With an empty polynomial the loop of \<^verbatim>\<open>check_crc\<close> runs over
  \<^verbatim>\<open>range(len + 1)\<close> and its last test \<^verbatim>\<open>temp_received[len] == 1\<close> raises
  \<^verbatim>\<open>IndexError\<close>.\<close>

definition check_crc :: "string \<Rightarrow> string \<Rightarrow> error + bool" where
  "check_crc received_data_with_crc polynomial_bits =
     pbind (int_list received_data_with_crc) (\<lambda>received_bits.
     pbind (int_list polynomial_bits) (\<lambda>polynomial.
       let n = int (length polynomial);
           m = int (length received_bits) - n + 1
       in if polynomial = [] then Inl IndexError
          else let temp_received = divide_loop received_bits polynomial (nat m);
                   remainder = concat (map str_nat (py_slice_from temp_received m))
               in pbind (py_int remainder) (\<lambda>v. Inr (v = 0))))"

section \<open>Framing: \<^verbatim>\<open>DataLinkLayerNode.frame_data\<close> and \<^verbatim>\<open>unframe_data\<close>\<close>

text \<open>
  The fields of \<^verbatim>\<open>DataLinkLayerNode\<close>. The dictionary \<^verbatim>\<open>received_frames\<close> is an
  association list (assignment is \<open>AList.update\<close>, \<^verbatim>\<open>pop\<close> is \<open>AList.delete\<close>,
  membership and lookup are \<open>map_of\<close>). The logger is a text widget and is left out;
  the values handed to the network layer, which the code reports through it, are
  returned by the receive operation instead.
\<close>

record node =
  name :: string
  polynomial :: string
  send_buffer :: "pystr list"
  next_frame_to_send :: int
  expected_frame_ack :: int
  window_size :: int
  received_frames :: "(int \<times> pystr option) list"
  next_frame_to_deliver :: int

text \<open>\<^verbatim>\<open>DataLinkLayerNode(name, gui_logger)\<close> with the default polynomial.\<close>

definition init_node :: "string \<Rightarrow> node" where
  "init_node nm =
     \<lparr>name = nm, polynomial = ''1011'', send_buffer = [], next_frame_to_send = 0,
      expected_frame_ack = 0, window_size = 3, received_frames = [],
      next_frame_to_deliver = 0\<rparr>"

text \<open>\<^verbatim>\<open>bin(n)[2:]\<close>, \<^verbatim>\<open>s.zfill(w)\<close> on a string of digits, and
  \<^verbatim>\<open>format(n, '08b')\<close>: the binary digits, padded with zeros to at least eight.\<close>

fun bin_digits :: "nat \<Rightarrow> string" where
  "bin_digits n = (if n < 2 then [digit_char n]
                   else bin_digits (n div 2) @ [digit_char (n mod 2)])"

declare bin_digits.simps [simp del]

definition zfill :: "nat \<Rightarrow> string \<Rightarrow> string" where
  "zfill w s = replicate (w - length s) CHR ''0'' @ s"

definition format_08b :: "nat \<Rightarrow> string" where
  "format_08b n = zfill 8 (bin_digits n)"

definition frame_data :: "node \<Rightarrow> pystr \<Rightarrow> int \<Rightarrow> error + string" where
  "frame_data self data sequence_number =
     (let seq_num_binary = zfill 2 (bin_digits (nat (sequence_number mod 4)));
          data_bits = concat (map format_08b data);
          frame_payload = seq_num_binary @ data_bits
      in pbind (generate_crc frame_payload (polynomial self)) (\<lambda>crc.
           Inr (frame_payload @ crc)))"

text \<open>\<^verbatim>\<open>chr(v)\<close> raises \<^verbatim>\<open>ValueError\<close> from \<open>0x110000\<close> on.\<close>

definition py_chr :: "nat \<Rightarrow> error + nat" where
  "py_chr v = (if v < 1114112 then Inr v else Inl ValueError)"

text \<open>The loop \<^verbatim>\<open>for i in range(0, len(data_bits), 8)\<close> of \<^verbatim>\<open>unframe_data\<close>.\<close>

definition decode_units :: "string \<Rightarrow> error + pystr" where
  "decode_units data_bits =
     fold (\<lambda>i r. pbind r (\<lambda>data.
             let byte = py_slice data_bits (int i) (int i + 8)
             in if byte \<noteq> []
                then pbind (py_int2 byte) (\<lambda>v. pbind (py_chr v) (\<lambda>c. Inr (data @ [c])))
                else Inr data))
          (map (\<lambda>k. 8 * k) [0..<(length data_bits + 7) div 8]) (Inr [])"

definition unframe_data :: "node \<Rightarrow> string \<Rightarrow> error + (int option \<times> pystr option \<times> bool)" where
  "unframe_data self frame =
     (if int (length frame) < int (length (polynomial self)) - 1 + 2
      then Inr (None, None, True)
      else pbind (check_crc frame (polynomial self)) (\<lambda>crc_ok.
        if \<not> crc_ok then Inr (None, None, True)
        else let seq_num_binary = py_slice frame 0 2;
                 data_bits = py_slice frame 2 (- int (length (polynomial self)) + 1)
             in pbind (py_int2 seq_num_binary) (\<lambda>sequence_number.
                pbind (decode_units data_bits) (\<lambda>data.
                  Inr (Some (int sequence_number), Some data, False)))))"

section \<open>The receiver: \<^verbatim>\<open>process_received_frame\<close>\<close>

text \<open>The loop \<^verbatim>\<open>while self.next_frame_to_deliver in self.received_frames\<close>: its
  state is the delivery pointer, the dictionary and the deliveries made so far.\<close>

function deliver_buffered ::
  "int \<Rightarrow> (int \<times> 'v) list \<Rightarrow> (int \<times> 'v) list \<Rightarrow> int \<times> (int \<times> 'v) list \<times> (int \<times> 'v) list" where
  "deliver_buffered n frames delivered =
     (case map_of frames n of
        None \<Rightarrow> (n, frames, delivered)
      | Some buffered_data \<Rightarrow>
          deliver_buffered (n + 1) (AList.delete n frames) (delivered @ [(n, buffered_data)]))"
  by pat_completeness auto
termination
proof (relation "measure (\<lambda>(n, frames, delivered). length frames)")
  show "wf (measure (\<lambda>(n, frames, delivered). length frames))"
    by simp
next
  fix n :: int and frames :: "(int \<times> 'v) list" and delivered :: "(int \<times> 'v) list" and d
  assume "map_of frames n = Some d"
  then have "(n, d) \<in> set frames"
    by (rule map_of_SomeD)
  then have "length (filter (\<lambda>(k, v). n \<noteq> k) frames) < length frames"
    by (intro length_filter_less [of "(n, d)"]) simp_all
  then show "((n + 1, AList.delete n frames, delivered @ [(n, d)]), (n, frames, delivered))
      \<in> measure (\<lambda>(n, frames, delivered). length frames)"
    by (simp add: AList.delete_eq)
qed

declare deliver_buffered.simps [simp del]

text \<open>The result is the acknowledgment to send, the deliveries to the network layer
  in the order they are made, and the node after the call.\<close>

definition process_received_frame ::
  "node \<Rightarrow> int option \<Rightarrow> pystr option \<Rightarrow> int option \<times> (int \<times> pystr option) list \<times> node" where
  "process_received_frame self sequence_number data =
     (case sequence_number of
        None \<Rightarrow> (None, [], self)
      | Some s \<Rightarrow>
          if s = next_frame_to_deliver self then
            (case deliver_buffered (next_frame_to_deliver self + 1) (received_frames self)
                    [(s, data)] of
               (n, frames, delivered) \<Rightarrow>
                 (Some s, delivered,
                  self\<lparr>received_frames := frames, next_frame_to_deliver := n\<rparr>))
          else if s > next_frame_to_deliver self then
            (if next_frame_to_deliver self > 0 then Some (next_frame_to_deliver self - 1)
             else None,
             [],
             self\<lparr>received_frames := AList.update s data (received_frames self)\<rparr>)
          else (Some s, [], self))"

section \<open>The step driver: \<^verbatim>\<open>DataLinkSimulatorGUI\<close>\<close>

text \<open>
  The channel draws random numbers. A \<open>draw\<close> holds what one call of
  \<^verbatim>\<open>simulate_channel_gui\<close> reads from them: whether the first number is below the loss
  probability, whether the second is below \<open>0.3\<close>, and the index from
  \<^verbatim>\<open>random.randint(0, len(frame) - 1)\<close>, which is below the length of the frame.
\<close>

record draw =
  lost :: bool
  hit :: bool
  error_index :: nat

definition simulate_channel_gui :: "string \<Rightarrow> bool \<Rightarrow> draw \<Rightarrow> string option" where
  "simulate_channel_gui frame introduce_error_flag d =
     (if lost d then None
      else if introduce_error_flag \<and> hit d then
        (let original_char = frame ! error_index d;
             corrupted_char = (if original_char = CHR ''0'' then CHR ''1'' else CHR ''0'')
         in Some (frame[error_index d := corrupted_char]))
      else Some frame)"

record simulator =
  sender :: node
  receiver :: node
  simulation_data :: "pystr list"
  is_running :: bool

text \<open>\<^verbatim>\<open>xs[i]\<close> with Python's negative indices.\<close>

definition py_nth :: "'a list \<Rightarrow> int \<Rightarrow> error + 'a" where
  "py_nth xs i =
     (if 0 \<le> i \<and> i < int (length xs) then Inr (xs ! nat i)
      else if i < 0 \<and> - int (length xs) \<le> i then Inr (xs ! nat (int (length xs) + i))
      else Inl IndexError)"

text \<open>\<^verbatim>\<open>start_simulation\<close> on a simulator that is not running, with the stripped
  text of the entry as \<open>data_input\<close> and a loss probability that parses and lies in
  \<open>[0, 1]\<close>. Empty input shows a warning and starts nothing.\<close>

definition start_simulation :: "pystr \<Rightarrow> simulator option" where
  "start_simulation data_input =
     (if data_input = [] then None
      else let simulation_data = map (\<lambda>c. [c]) data_input
           in Some \<lparr>sender = (init_node ''Sender'')\<lparr>send_buffer := simulation_data\<rparr>,
                    receiver = init_node ''Receiver'',
                    simulation_data = simulation_data,
                    is_running = True\<rparr>)"

definition can_send_new_frame :: "node \<Rightarrow> bool" where
  "can_send_new_frame s =
     (next_frame_to_send s < int (length (send_buffer s)) \<and>
      next_frame_to_send s < expected_frame_ack s + window_size s)"

text \<open>The sender's handling of an acknowledgment inside \<^verbatim>\<open>next_simulation_step\<close>.\<close>

definition receive_ack :: "node \<Rightarrow> int \<Rightarrow> node" where
  "receive_ack s ack_num =
     (if ack_num \<ge> expected_frame_ack s then s\<lparr>expected_frame_ack := ack_num + 1\<rparr> else s)"

definition end_simulation :: "simulator \<Rightarrow> simulator" where
  "end_simulation gui = gui\<lparr>is_running := False\<rparr>"

text \<open>The check for global completion at the end of \<^verbatim>\<open>next_simulation_step\<close>.\<close>

definition completion_check :: "simulator \<Rightarrow> simulator" where
  "completion_check gui =
     (if expected_frame_ack (sender gui) = int (length (send_buffer (sender gui))) \<and>
         next_frame_to_deliver (receiver gui) = int (length (simulation_data gui))
      then end_simulation gui else gui)"

text \<open>The part of the step between the channel and the increment of
  \<^verbatim>\<open>next_frame_to_send\<close>: what the receiver and the sender do with the channel's
  output.\<close>

definition deliver_frame :: "simulator \<Rightarrow> string option \<Rightarrow> error + simulator" where
  "deliver_frame gui received_frame_at_receiver =
     (case received_frame_at_receiver of
        None \<Rightarrow> Inr gui
      | Some received \<Rightarrow>
          pbind (unframe_data (receiver gui) received) (\<lambda>(seq_num, data_unframed, is_corrupted).
            if \<not> is_corrupted then
              (case process_received_frame (receiver gui) seq_num data_unframed of
                 (ack_num_from_receiver, delivered, r) \<Rightarrow>
                   (case ack_num_from_receiver of
                      Some a \<Rightarrow> Inr (gui\<lparr>sender := receive_ack (sender gui) a, receiver := r\<rparr>)
                    | None \<Rightarrow> Inr (gui\<lparr>receiver := r\<rparr>)))
            else Inr gui))"

definition next_simulation_step :: "bool \<Rightarrow> draw \<Rightarrow> simulator \<Rightarrow> error + simulator" where
  "next_simulation_step introduce_error_flag d gui =
     (if \<not> is_running gui then Inr gui
      else if can_send_new_frame (sender gui) then
        pbind (py_nth (send_buffer (sender gui)) (next_frame_to_send (sender gui))) (\<lambda>data_char.
        pbind (frame_data (sender gui) data_char (next_frame_to_send (sender gui))) (\<lambda>frame_to_send.
        pbind (deliver_frame gui (simulate_channel_gui frame_to_send introduce_error_flag d)) (\<lambda>gui1.
          Inr (completion_check
                 (gui1\<lparr>sender := (sender gui1)
                          \<lparr>next_frame_to_send := next_frame_to_send (sender gui1) + 1\<rparr>\<rparr>)))))
      else if expected_frame_ack (sender gui) < int (length (send_buffer (sender gui)))
      then Inr (completion_check gui)
      else Inr (end_simulation gui))"

text \<open>The states a simulation can be in: after \<^verbatim>\<open>start_simulation\<close>, after a step
  with any channel draw, and after an acknowledgment of any number reaches the sender.\<close>

inductive reachable :: "simulator \<Rightarrow> bool" where
  start: "start_simulation data_input = Some gui \<Longrightarrow> reachable gui"
| step: "reachable gui \<Longrightarrow> next_simulation_step flag d gui = Inr gui' \<Longrightarrow> reachable gui'"
| ack: "reachable gui \<Longrightarrow> reachable (gui\<lparr>sender := receive_ack (sender gui) a\<rparr>)"

section \<open>Example states\<close>

text \<open>A receiver that holds frames 1, 2 and 4 and waits for frame 0.\<close>

definition example_receiver :: node where
  "example_receiver =
     (init_node ''Receiver'')\<lparr>received_frames := [(2, Some [66]), (1, Some [65]), (4, Some [67])]\<rparr>"

text \<open>The simulator after \<^verbatim>\<open>start_simulation\<close> on the input \<^verbatim>\<open>Hello\<close>; the same
  simulator after its first \<open>k\<close> frames were sent and none was acknowledged; and three
  channel draws: the frame is lost, the frame arrives as sent, bit 4 of the frame is
  flipped.\<close>

definition hello_simulator :: simulator where
  "hello_simulator =
     \<lparr>sender = (init_node ''Sender'')\<lparr>send_buffer := [[72], [101], [108], [108], [111]]\<rparr>,
      receiver = init_node ''Receiver'',
      simulation_data = [[72], [101], [108], [108], [111]],
      is_running = True\<rparr>"

definition frames_sent :: "int \<Rightarrow> simulator" where
  "frames_sent k = hello_simulator\<lparr>sender := (sender hello_simulator)\<lparr>next_frame_to_send := k\<rparr>\<rparr>"

definition lost_draw :: draw where
  "lost_draw = \<lparr>lost = True, hit = False, error_index = 0\<rparr>"

definition clean_draw :: draw where
  "clean_draw = \<lparr>lost = False, hit = False, error_index = 0\<rparr>"

definition error_draw :: draw where
  "error_draw = \<lparr>lost = False, hit = True, error_index = 4\<rparr>"

section \<open>Digits and bit strings\<close>

lemma digit_char_0 [simp]: "digit_char 0 = CHR ''0''"
  by code_simp

lemma digit_char_1 [simp]: "digit_char (Suc 0) = CHR ''1''"
  by code_simp

lemma str_nat_0 [simp]: "str_nat 0 = ''0''"
  by (simp add: str_nat.simps)

lemma str_nat_1 [simp]: "str_nat (Suc 0) = ''1''"
  by (simp add: str_nat.simps)

lemma is_bit_is_digit: "is_bit c \<Longrightarrow> is_digit c"
  by (auto simp: is_bit_def is_digit_def)

lemma digit_value_0 [simp]: "digit_value CHR ''0'' = 0"
  by (simp add: digit_value_def)

lemma digit_value_1 [simp]: "digit_value CHR ''1'' = Suc 0"
  by (simp add: digit_value_def)

lemma int_list_bits: "list_all is_bit s \<Longrightarrow> int_list s = Inr (map digit_value s)"
  by (induction s) (simp_all add: pbind_def int_of_char_def is_bit_is_digit)

lemma concat_str_zeros: "concat (map str_nat (replicate k 0)) = replicate k CHR ''0''"
  by (induction k) simp_all

lemma digit_char_bit: "x < 2 \<Longrightarrow> is_bit (digit_char x) \<and> digit_value (digit_char x) = x \<and> str_nat x = [digit_char x]"
  by (auto simp: less_2_cases_iff is_bit_def)

lemma digit_value_bit: "is_bit c \<Longrightarrow> digit_value c < 2"
  by (auto simp: is_bit_def)

lemma concat_str_bits: "\<forall>x\<in>set r. x < 2 \<Longrightarrow> concat (map str_nat r) = map digit_char r"
  by (induction r) (simp_all add: digit_char_bit)

lemma bits_digit_char: "\<forall>x\<in>set r. x < 2 \<Longrightarrow> list_all is_bit (map digit_char r)"
  by (induction r) (simp_all add: digit_char_bit)

lemma digit_value_digit_char: "\<forall>x\<in>set r. x < 2 \<Longrightarrow> map digit_value (map digit_char r) = r"
  by (induction r) (simp_all add: digit_char_bit)

lemma bits_digit_value: "list_all is_bit s \<Longrightarrow> \<forall>j<length s. map digit_value s ! j < 2"
  by (simp add: list_all_length digit_value_bit)

lemma digits_value_zeros: "digits_value base (replicate k CHR ''0'') = 0"
  unfolding digits_value_def by (induction k) simp_all

lemma py_int_zeros: "0 < k \<Longrightarrow> k \<le> 4300 \<Longrightarrow> py_int (replicate k CHR ''0'') = Inr 0"
  by (simp add: py_int_def digits_value_zeros list_all_length is_digit_def)

lemma xor_absorb_nat: "(x::nat) XOR y = y \<Longrightarrow> x = 0"
  by (metis xor.assoc xor_self_eq xor.right_neutral)

section \<open>The coding unit on empty data\<close>

text \<open>
  C8 (as the code has it): \<^verbatim>\<open>generate_crc\<close> on the empty data string does not fail for
  any generator pattern of bits. It returns the all-zero check value of length
  \<open>len(generator) - 1\<close>; the module has no \<^verbatim>\<open>InvalidInputError\<close>.
\<close>

theorem generate_crc_empty_data:
  "list_all is_bit g \<Longrightarrow> generate_crc [] g = Inr (replicate (length g - 1) CHR ''0'')"
  by (simp add: generate_crc_def pbind_def int_list_bits divide_loop_def concat_str_zeros)

text \<open>C8, witness: the default generator.\<close>

theorem generate_crc_empty_data_witness:
  "list_all is_bit ''1011'' \<and> generate_crc [] ''1011'' = Inr ''000''"
  using generate_crc_empty_data [of "''1011''"] by (simp add: is_bit_def)

text \<open>C8, counterexample to the claim as stated: on empty data and the default generator
  the call returns a check value, not an error.\<close>

theorem generate_crc_empty_no_error: "generate_crc [] ''1011'' = Inr ''000''"
  by code_simp

section \<open>The division loops\<close>

lemma xor_bits: "a < 2 \<Longrightarrow> b < 2 \<Longrightarrow> a XOR b < (2::nat)"
  by (auto simp: less_2_cases_iff)

lemma xor_cancel_nat: "(a::nat) XOR b = 0 \<Longrightarrow> a = b"
  by (metis xor.assoc xor_self_eq xor.right_neutral xor.left_neutral)

lemma xor_same_mask: "((b::nat) XOR x) XOR (a XOR x) = b XOR a"
  by (metis xor.assoc xor.commute xor_self_eq xor.right_neutral)

text \<open>The inner loop, entry by entry.\<close>

lemma xor_prefix_loop:
  assumes "i + m \<le> length t"
  shows "length (fold (\<lambda>j t. t[i + j := (t ! (i + j)) XOR (p ! j)]) [0..<m] t) = length t \<and>
         (\<forall>k<length t. fold (\<lambda>j t. t[i + j := (t ! (i + j)) XOR (p ! j)]) [0..<m] t ! k =
            (if i \<le> k \<and> k < i + m then (t ! k) XOR (p ! (k - i)) else t ! k))"
  using assms
proof (induction m)
  case 0
  show ?case by auto
next
  case (Suc m)
  then have IH:
    "length (fold (\<lambda>j t. t[i + j := (t ! (i + j)) XOR (p ! j)]) [0..<m] t) = length t"
    "\<And>k. k < length t \<Longrightarrow> fold (\<lambda>j t. t[i + j := (t ! (i + j)) XOR (p ! j)]) [0..<m] t ! k =
            (if i \<le> k \<and> k < i + m then (t ! k) XOR (p ! (k - i)) else t ! k)"
    by simp_all
  have im: "i + m < length t" using Suc.prems by simp
  show ?case
  proof (intro conjI allI impI)
    show "length (fold (\<lambda>j t. t[i + j := (t ! (i + j)) XOR (p ! j)]) [0..<Suc m] t) = length t"
      by (simp add: IH(1))
  next
    fix k assume k: "k < length t"
    show "fold (\<lambda>j t. t[i + j := (t ! (i + j)) XOR (p ! j)]) [0..<Suc m] t ! k =
            (if i \<le> k \<and> k < i + Suc m then (t ! k) XOR (p ! (k - i)) else t ! k)"
    proof (cases "k = i + m")
      case True
      then show ?thesis using im by (simp add: IH)
    next
      case False
      then show ?thesis using k by (auto simp: IH)
    qed
  qed
qed

lemma length_xor_polynomial:
  "i + length p \<le> length t \<Longrightarrow> length (xor_polynomial t p i) = length t"
  unfolding xor_polynomial_def using xor_prefix_loop [of i "length p" t p] by simp

lemma nth_xor_polynomial:
  "i + length p \<le> length t \<Longrightarrow> k < length t \<Longrightarrow>
     xor_polynomial t p i ! k =
       (if i \<le> k \<and> k < i + length p then (t ! k) XOR (p ! (k - i)) else t ! k)"
  unfolding xor_polynomial_def using xor_prefix_loop [of i "length p" t p] by simp

lemma divide_loop_Suc:
  "divide_loop t p (Suc k) =
     (let t' = divide_loop t p k in if t' ! k = 1 then xor_polynomial t' p k else t')"
  by (simp add: divide_loop_def)

lemma divide_loop_0 [simp]: "divide_loop t p 0 = t"
  by (simp add: divide_loop_def)

lemma length_divide_loop:
  "k + length p \<le> length t + 1 \<Longrightarrow> p \<noteq> [] \<Longrightarrow> length (divide_loop t p k) = length t"
proof (induction k)
  case 0
  show ?case by simp
next
  case (Suc k)
  then have "length (divide_loop t p k) = length t" by simp
  moreover have "k + length p \<le> length t" using Suc.prems by simp
  ultimately show ?case
    by (simp add: divide_loop_Suc Let_def length_xor_polynomial)
qed

lemma divide_loop_bits:
  assumes "k + length p \<le> length t + 1" and "p \<noteq> []"
    and "\<forall>j<length t. t ! j < 2" and "\<forall>j<length p. p ! j < 2"
  shows "\<forall>j<length t. divide_loop t p k ! j < 2"
  using assms(1)
proof (induction k)
  case 0
  show ?case using assms(3) by simp
next
  case (Suc k)
  then have IH: "\<forall>j<length t. divide_loop t p k ! j < 2" by simp
  have len: "length (divide_loop t p k) = length t"
    using Suc.prems assms(2) by (simp add: length_divide_loop)
  have kp: "k + length p \<le> length (divide_loop t p k)" using Suc.prems len by simp
  show ?case
  proof (intro allI impI)
    fix j assume j: "j < length t"
    show "divide_loop t p (Suc k) ! j < 2"
    proof (cases "divide_loop t p k ! k = 1")
      case False
      then show ?thesis using IH j by (simp add: divide_loop_Suc)
    next
      case True
      have "xor_polynomial (divide_loop t p k) p k ! j < 2"
      proof (cases "k \<le> j \<and> j < k + length p")
        case False
        then show ?thesis using IH j kp len by (auto simp: nth_xor_polynomial)
      next
        case inside: True
        then have "j - k < length p" by auto
        then have "p ! (j - k) < 2" using assms(4) by simp
        then show ?thesis using IH j kp len inside
          by (simp add: nth_xor_polynomial xor_bits)
      qed
      then show ?thesis using True by (simp add: divide_loop_Suc)
    qed
  qed
qed

text \<open>Two runs of the division on lists that agree where the loop tests: the entries
  differ after the loop by what they differed by before it.\<close>

lemma divide_loop_difference:
  assumes "length a = length b" and "p \<noteq> []" and "k + length p \<le> length a + 1"
    and "\<forall>j<k. a ! j = b ! j"
  shows "\<forall>j<length a. (divide_loop b p k ! j) XOR (divide_loop a p k ! j) = (b ! j) XOR (a ! j)"
  using assms(3,4)
proof (induction k)
  case 0
  show ?case by simp
next
  case (Suc k)
  then have IH: "\<forall>j<length a. (divide_loop b p k ! j) XOR (divide_loop a p k ! j) = (b ! j) XOR (a ! j)"
    by simp
  have lena: "length (divide_loop a p k) = length a"
    using Suc.prems assms(2) by (simp add: length_divide_loop)
  have lenb: "length (divide_loop b p k) = length a"
    using Suc.prems assms(1,2) by (simp add: length_divide_loop)
  have kp: "k + length p \<le> length a" using Suc.prems by simp
  have k: "k < length a" using kp assms(2) by (cases p) simp_all
  have "(divide_loop b p k ! k) XOR (divide_loop a p k ! k) = 0"
    using IH k Suc.prems(2) by simp
  then have same: "divide_loop b p k ! k = divide_loop a p k ! k"
    by (rule xor_cancel_nat)
  show ?case
  proof (intro allI impI)
    fix j assume j: "j < length a"
    show "(divide_loop b p (Suc k) ! j) XOR (divide_loop a p (Suc k) ! j) = (b ! j) XOR (a ! j)"
    proof (cases "divide_loop a p k ! k = 1")
      case False
      then show ?thesis using IH j same by (simp add: divide_loop_Suc)
    next
      case True
      then show ?thesis using IH j same kp lena lenb
        by (simp add: divide_loop_Suc nth_xor_polynomial xor_same_mask)
    qed
  qed
qed

text \<open>The check value of a bit string, and the division of the string with its check
  value appended.\<close>

lemma generate_crc_bits:
  assumes "list_all is_bit data" and "list_all is_bit p" and "p \<noteq> []"
  shows "generate_crc data p =
           Inr (map digit_char (drop (length data)
                  (divide_loop (map digit_value data @ replicate (length p - 1) 0)
                     (map digit_value p) (length data)))) \<and>
         (\<forall>x \<in> set (drop (length data)
                  (divide_loop (map digit_value data @ replicate (length p - 1) 0)
                     (map digit_value p) (length data))). x < 2) \<and>
         length (divide_loop (map digit_value data @ replicate (length p - 1) 0)
                     (map digit_value p) (length data)) = length data + (length p - 1)"
proof -
  let ?a = "map digit_value data @ replicate (length p - 1) 0"
  let ?P = "map digit_value p"
  let ?A = "divide_loop ?a ?P (length data)"
  have P: "?P \<noteq> []" using assms(3) by simp
  have k: "length data + length ?P \<le> length ?a + 1" using assms(3) by (cases p) simp_all
  have lenA: "length ?A = length ?a"
    using k P by (rule length_divide_loop)
  have abits: "\<forall>j<length ?a. ?a ! j < 2"
    using bits_digit_value [OF assms(1)] by (auto simp: nth_append)
  have Pbits: "\<forall>j<length ?P. ?P ! j < 2"
    using bits_digit_value [OF assms(2)] by simp
  have Abits: "\<forall>j<length ?a. ?A ! j < 2"
    using k P abits Pbits by (rule divide_loop_bits)
  have "\<forall>x \<in> set ?A. x < 2"
    using Abits lenA by (auto simp: in_set_conv_nth)
  then have rbits: "\<forall>x \<in> set (drop (length data) ?A). x < 2"
    by (meson in_set_dropD)
  have "generate_crc data p = Inr (concat (map str_nat (drop (length data) ?A)))"
    using assms(1,2) by (simp add: generate_crc_def pbind_def int_list_bits Let_def)
  then show ?thesis
    using rbits lenA by (simp add: concat_str_bits)
qed

lemma crc_appended_checks:
  assumes "list_all is_bit data" and "list_all is_bit p" and "2 \<le> length p"
    and "length p \<le> 4301"
  shows "\<exists>crc. generate_crc data p = Inr crc \<and> length crc = length p - 1 \<and>
               list_all is_bit crc \<and> check_crc (data @ crc) p = Inr True"
proof -
  define c where "c = length p - 1"
  define D where "D = map digit_value data"
  define P where "P = map digit_value p"
  define A where "A = divide_loop (D @ replicate c 0) P (length data)"
  define r where "r = drop (length data) A"
  define B where "B = divide_loop (D @ r) P (length data)"
  have pne: "p \<noteq> []" using assms(3) by auto
  have c: "0 < c" "length P = c + 1" using assms(3) by (simp_all add: c_def P_def)
  have climit: "c \<le> 4300" using assms(4) by (simp add: c_def)
  have P: "P \<noteq> []" using pne by (simp add: P_def)
  have lenD: "length D = length data" by (simp add: D_def)
  from generate_crc_bits [OF assms(1,2) pne]
  have gen: "generate_crc data p = Inr (map digit_char r)" and rbits: "\<forall>x \<in> set r. x < 2"
    and lenA: "length A = length data + c"
    by (simp_all add: r_def A_def D_def P_def c_def)
  have lenr: "length r = c" using lenA by (simp add: r_def)
  have crcbits: "list_all is_bit (map digit_char r)" using rbits by (rule bits_digit_char)
  have lenab: "length (D @ replicate c 0) = length (D @ r)" using lenr by simp
  have k: "length data + length P \<le> length (D @ replicate c 0) + 1"
    using c lenD by simp
  have agree: "\<forall>j<length data. (D @ replicate c 0) ! j = (D @ r) ! j"
    by (simp add: nth_append lenD)
  have diff: "\<forall>j<length (D @ replicate c 0). (B ! j) XOR (A ! j) = ((D @ r) ! j) XOR ((D @ replicate c 0) ! j)"
    unfolding A_def B_def using lenab P k agree by (rule divide_loop_difference)
  have lenB: "length B = length data + c"
    unfolding B_def using length_divide_loop [of "length data" P "D @ r"] c lenD lenr P by simp
  have zero: "B ! (length data + j) = 0" if "j < c" for j
  proof -
    have "(B ! (length data + j)) XOR (A ! (length data + j))
          = ((D @ r) ! (length data + j)) XOR ((D @ replicate c 0) ! (length data + j))"
      using diff that lenD by simp
    moreover have "(D @ replicate c 0) ! (length data + j) = 0"
      using that lenD by (simp add: nth_append)
    moreover have "(D @ r) ! (length data + j) = A ! (length data + j)"
      using that lenA lenD by (simp add: nth_append r_def)
    ultimately have "(B ! (length data + j)) XOR (A ! (length data + j)) = A ! (length data + j)"
      by simp
    then show ?thesis by (rule xor_absorb_nat)
  qed
  have rem: "drop (length data) B = replicate c 0"
    by (rule nth_equalityI) (simp_all add: lenB zero)
  have il: "int_list (data @ map digit_char r) = Inr (D @ r)"
    using assms(1) crcbits digit_value_digit_char [OF rbits]
    by (simp add: int_list_bits D_def del: map_map)
  have ilp: "int_list p = Inr P"
    using assms(2) by (simp add: int_list_bits P_def)
  have m: "int (length (D @ r)) - int (length P) + 1 = int (length data)"
    using lenr lenD c by simp
  have slice: "py_slice_from B (int (length data)) = replicate c 0"
    using rem by (simp add: py_slice_from_def slice_bound_def lenB)
  have "check_crc (data @ map digit_char r) p =
          pbind (py_int (concat (map str_nat (py_slice_from
                   (divide_loop (D @ r) P (nat (int (length (D @ r)) - int (length P) + 1)))
                   (int (length (D @ r)) - int (length P) + 1)))))
            (\<lambda>v. Inr (v = 0))"
    using P by (simp add: check_crc_def il ilp pbind_def Let_def)
  also have "\<dots> = pbind (py_int (concat (map str_nat (py_slice_from B (int (length data))))))
                     (\<lambda>v. Inr (v = 0))"
    unfolding m by (simp add: B_def)
  also have "\<dots> = Inr True"
    using c(1) climit by (simp add: slice concat_str_zeros py_int_zeros pbind_def)
  finally have "check_crc (data @ map digit_char r) p = Inr True" .
  with gen lenr crcbits show ?thesis by (auto simp: c_def)
qed

text \<open>
  C2: for every non-empty bit string and the generator \<open>1011\<close>, \<^verbatim>\<open>generate_crc\<close>
  returns a check value, and \<^verbatim>\<open>check_crc\<close> on the data with that check value appended
  returns true.
\<close>

theorem crc_round_trip:
  assumes "data \<noteq> []" and "list_all is_bit data"
  shows "\<exists>crc. generate_crc data ''1011'' = Inr crc \<and> check_crc (data @ crc) ''1011'' = Inr True"
  using crc_appended_checks [OF assms(2), of "''1011''"] by (auto simp: is_bit_def)

text \<open>C2, witness: the data \<open>1101\<close>, whose check value is \<open>001\<close>.\<close>

theorem crc_round_trip_witness:
  "''1101'' \<noteq> [] \<and> list_all is_bit ''1101'' \<and> generate_crc ''1101'' ''1011'' = Inr ''001'' \<and>
   check_crc (''1101'' @ ''001'') ''1011'' = Inr True"
proof -
  have g: "generate_crc ''1101'' ''1011'' = Inr ''001''" by code_simp
  have b: "list_all is_bit ''1101''" by (simp add: is_bit_def)
  from crc_round_trip [OF _ b] g b show ?thesis by simp
qed

section \<open>Binary fields and slices\<close>

lemma digits_value_snoc: "digits_value b (s @ [c]) = b * digits_value b s + digit_value c"
  by (simp add: digits_value_def)

lemma digits_value_Nil [simp]: "digits_value b [] = 0"
  by (simp add: digits_value_def)

lemma digits_value_lead_zeros: "digits_value b (replicate k CHR ''0'' @ s) = digits_value b s"
proof (induction s rule: rev_induct)
  case Nil
  show ?case by (simp add: digits_value_zeros)
next
  case (snoc c s)
  have "digits_value b ((replicate k CHR ''0'' @ s) @ [c]) = digits_value b (s @ [c])"
    unfolding digits_value_snoc using snoc by simp
  then show ?case by simp
qed

lemma digits_value_bound: "list_all is_bit s \<Longrightarrow> digits_value 2 s < 2 ^ length s"
proof (induction s rule: rev_induct)
  case Nil
  show ?case by simp
next
  case (snoc c s)
  then have "digits_value 2 s < 2 ^ length s" and "digit_value c < 2"
    by (simp_all add: digit_value_bit)
  then show ?case by (simp add: digits_value_snoc)
qed

lemma bin_digits_small: "n < 2 \<Longrightarrow> bin_digits n = [digit_char n]"
  by (subst bin_digits.simps) simp

lemma bin_digits_large:
  "\<not> n < 2 \<Longrightarrow> bin_digits n = bin_digits (n div 2) @ [digit_char (n mod 2)]"
  by (subst bin_digits.simps) simp

lemma bin_digits_bits: "list_all is_bit (bin_digits n)"
proof (induction n rule: bin_digits.induct)
  case (1 n)
  show ?case
  proof (cases "n < 2")
    case True
    then show ?thesis by (simp add: bin_digits_small digit_char_bit)
  next
    case False
    moreover have "is_bit (digit_char (n mod 2))" by (simp add: digit_char_bit)
    ultimately show ?thesis using 1 by (simp add: bin_digits_large)
  qed
qed

lemma bin_digits_value: "digits_value 2 (bin_digits n) = n"
proof (induction n rule: bin_digits.induct)
  case (1 n)
  show ?case
  proof (cases "n < 2")
    case True
    then show ?thesis
      by (simp add: bin_digits_small digits_value_def digit_char_bit)
  next
    case False
    then have "digits_value 2 (bin_digits (n div 2)) = n div 2" using 1 by simp
    moreover have "digit_value (digit_char (n mod 2)) = n mod 2" by (simp add: digit_char_bit)
    ultimately show ?thesis using False
      by (simp add: bin_digits_large digits_value_snoc)
  qed
qed

lemma bin_digits_length: "n < 2 ^ Suc k \<Longrightarrow> length (bin_digits n) \<le> Suc k"
proof (induction k arbitrary: n)
  case 0
  then have "n < 2" by simp
  then show ?case by (simp add: bin_digits_small)
next
  case (Suc k)
  show ?case
  proof (cases "n < 2")
    case True
    then show ?thesis by (simp add: bin_digits_small)
  next
    case False
    have "n < 2 * 2 ^ Suc k" using Suc.prems by simp
    then have "n div 2 < 2 ^ Suc k" by (simp add: less_mult_imp_div_less mult.commute)
    then have "length (bin_digits (n div 2)) \<le> Suc k" by (rule Suc.IH)
    then show ?thesis using False by (simp add: bin_digits_large)
  qed
qed

lemma bits_replicate_zero: "list_all is_bit (replicate k CHR ''0'')"
  by (induction k) (simp_all add: is_bit_def)

lemma zfill_bits: "list_all is_bit s \<Longrightarrow> list_all is_bit (zfill w s)"
  by (simp add: zfill_def bits_replicate_zero)

lemma zfill_value: "digits_value b (zfill w s) = digits_value b s"
  by (simp add: zfill_def digits_value_lead_zeros)

lemma zfill_length: "length s \<le> w \<Longrightarrow> length (zfill w s) = w"
  by (simp add: zfill_def)

lemma format_08b_bits: "list_all is_bit (format_08b c)"
  by (simp add: format_08b_def zfill_bits bin_digits_bits)

lemma format_08b_value: "digits_value 2 (format_08b c) = c"
  by (simp add: format_08b_def zfill_value bin_digits_value)

lemma format_08b_length: "c < 256 \<Longrightarrow> length (format_08b c) = 8"
proof -
  assume "c < 256"
  then have "c < 2 ^ Suc 7" by simp
  then have "length (bin_digits c) \<le> Suc 7" by (rule bin_digits_length)
  then show ?thesis by (simp add: format_08b_def zfill_length)
qed

lemma seq_field:
  "list_all is_bit (zfill 2 (bin_digits (nat (s mod 4)))) \<and>
   length (zfill 2 (bin_digits (nat (s mod 4)))) = 2 \<and>
   int (digits_value 2 (zfill 2 (bin_digits (nat (s mod 4))))) = s mod 4"
proof -
  have "nat (s mod 4) < 2 ^ Suc 1" by simp
  then have "length (bin_digits (nat (s mod 4))) \<le> Suc 1" by (rule bin_digits_length)
  then show ?thesis
    by (simp add: zfill_bits bin_digits_bits zfill_length zfill_value bin_digits_value)
qed

lemma data_bits_bits: "list_all is_bit (concat (map format_08b data))"
  by (induction data) (simp_all add: format_08b_bits)

lemma py_slice_nat: "py_slice xs (int i) (int j) = take (j - i) (drop i xs)"
  by (auto simp: py_slice_def slice_bound_def Let_def min_def)

lemma py_slice_to_neg:
  "i + k \<le> length xs \<Longrightarrow> 0 < k \<Longrightarrow> py_slice xs (int i) (- int k) = take (length xs - k - i) (drop i xs)"
  by (auto simp: py_slice_def slice_bound_def Let_def min_def nat_diff_distrib')

section \<open>Decoding the payload bits\<close>

lemma bits_take_drop: "list_all is_bit s \<Longrightarrow> list_all is_bit (take n (drop k s))"
  by (metis append_take_drop_id list_all_append)

lemma unit_value_chr:
  assumes "list_all is_bit byte" and "length byte \<le> 8"
  shows "py_chr (digits_value 2 byte) = Inr (digits_value 2 byte)"
proof -
  have "digits_value 2 byte < 2 ^ length byte"
    using assms(1) by (rule digits_value_bound)
  also have "(2::nat) ^ length byte \<le> 2 ^ 8"
    using assms(2) by (intro power_increasing) simp_all
  finally show ?thesis by (simp add: py_chr_def)
qed

text \<open>The decoding loop on a bit string: one character for every started group of
  eight bits, the last group possibly shorter.\<close>

lemma decode_units_prefix:
  assumes "list_all is_bit bs" and "m \<le> (length bs + 7) div 8"
  shows "fold (\<lambda>i r. pbind r (\<lambda>data.
             let byte = py_slice bs (int i) (int i + 8)
             in if byte \<noteq> []
                then pbind (py_int2 byte) (\<lambda>v. pbind (py_chr v) (\<lambda>c. Inr (data @ [c])))
                else Inr data))
          (map (\<lambda>k. 8 * k) [0..<m]) (Inr [])
         = Inr (map (\<lambda>k. digits_value 2 (take 8 (drop (8 * k) bs))) [0..<m])"
  using assms(2)
proof (induction m)
  case 0
  show ?case by simp
next
  case (Suc m)
  then have inside: "8 * m < length bs" by simp
  have slice: "py_slice bs (8 * int m) (8 * int m + 8) = take 8 (drop (8 * m) bs)"
    using py_slice_nat [of bs "8 * m" "8 * m + 8"] by (simp add: algebra_simps)
  have ne: "take 8 (drop (8 * m) bs) \<noteq> []" using inside by simp
  have bits: "list_all is_bit (take 8 (drop (8 * m) bs))"
    using assms(1) by (rule bits_take_drop)
  have chr: "py_chr (digits_value 2 (take 8 (drop (8 * m) bs)))
             = Inr (digits_value 2 (take 8 (drop (8 * m) bs)))"
    using bits by (rule unit_value_chr) simp
  from Suc show ?case
    by (simp add: pbind_def slice py_int2_def bits chr ne Let_def del: take_eq_Nil)
qed

lemma decode_units_bits:
  assumes "list_all is_bit bs"
  shows "decode_units bs =
           Inr (map (\<lambda>k. digits_value 2 (take 8 (drop (8 * k) bs))) [0..<(length bs + 7) div 8])"
  unfolding decode_units_def using decode_units_prefix [OF assms order_refl] .

lemma unit_of_data_bits:
  "\<forall>c\<in>set data. c < 256 \<Longrightarrow> k < length data \<Longrightarrow>
     take 8 (drop (8 * k) (concat (map format_08b data))) = format_08b (data ! k)"
proof (induction data arbitrary: k)
  case Nil
  then show ?case by simp
next
  case (Cons c data)
  then have len: "length (format_08b c) = 8" by (simp add: format_08b_length)
  show ?case
  proof (cases k)
    case 0
    then show ?thesis using len by simp
  next
    case (Suc j)
    then have "take 8 (drop (8 * j) (concat (map format_08b data))) = format_08b (data ! j)"
      using Cons by simp
    then show ?thesis using Suc len by simp
  qed
qed

lemma length_data_bits:
  "\<forall>c\<in>set data. c < 256 \<Longrightarrow> length (concat (map format_08b data)) = 8 * length data"
  by (induction data) (simp_all add: format_08b_length)

lemma decode_units_data_bits:
  assumes "\<forall>c\<in>set data. c < 256"
  shows "decode_units (concat (map format_08b data)) = Inr data"
proof -
  have "map (\<lambda>k. digits_value 2 (take 8 (drop (8 * k) (concat (map format_08b data)))))
          [0..<length data] = data"
    by (rule nth_equalityI) (simp_all add: unit_of_data_bits [OF assms] format_08b_value)
  moreover have "(length (concat (map format_08b data)) + 7) div 8 = length data"
    by (simp add: length_data_bits [OF assms])
  ultimately show ?thesis
    by (simp add: decode_units_bits [OF data_bits_bits])
qed

section \<open>Framing and unframing\<close>

lemma py_slice_head: "py_slice xs 0 2 = take 2 xs"
  by (simp add: py_slice_def slice_bound_def Let_def min_def)

lemma slice_bound_neg:
  assumes "2 \<le> n" and "n + 1 \<le> length xs"
  shows "slice_bound (1 - int n) (length xs) = length xs - (n - 1)"
proof -
  have neg: "1 - int n < 0" using assms(1) by linarith
  have "nat (int (length xs) + (1 - int n)) = length xs - (n - 1)"
    using assms by linarith
  with neg show ?thesis by (simp only: slice_bound_def if_True)
qed

lemma py_slice_middle:
  assumes "2 \<le> n" and "n + 1 \<le> length xs"
  shows "py_slice xs 2 (1 - int n) = take (length xs - (n - 1) - 2) (drop 2 xs)"
proof -
  have "slice_bound 2 (length xs) = 2"
    using assms by (simp add: slice_bound_def)
  then show ?thesis
    by (simp only: py_slice_def Let_def slice_bound_neg [OF assms])
qed

text \<open>A frame of bits that passes the length check and the CRC check is decoded into
  the value of its first two bits and one character for each started group of eight
  of the bits between them and the check value.\<close>

lemma unframe_data_bits:
  assumes "list_all is_bit frame" and "2 \<le> length (polynomial self)"
    and "length (polynomial self) + 1 \<le> length frame"
    and "check_crc frame (polynomial self) = Inr True"
  shows "unframe_data self frame =
           Inr (Some (int (digits_value 2 (take 2 frame))),
                Some (map (\<lambda>k. digits_value 2 (take 8 (drop (8 * k)
                        (take (length frame - (length (polynomial self) - 1) - 2) (drop 2 frame)))))
                      [0..<(length (take (length frame - (length (polynomial self) - 1) - 2) (drop 2 frame)) + 7) div 8]),
                False)"
proof -
  define mid where "mid = take (length frame - (length (polynomial self) - 1) - 2) (drop 2 frame)"
  have long: "\<not> int (length frame) < int (length (polynomial self)) - 1 + 2"
    using assms(3) by simp
  have head: "py_int2 (py_slice frame 0 2) = Inr (digits_value 2 (take 2 frame))"
  proof -
    have "take 2 frame \<noteq> []" using assms(2,3) by auto
    moreover have "list_all is_bit (take 2 frame)"
      using bits_take_drop [OF assms(1), of 2 0] by simp
    ultimately show ?thesis by (simp add: py_slice_head py_int2_def)
  qed
  have mid: "py_slice frame 2 (1 - int (length (polynomial self))) = mid"
    unfolding mid_def using assms(2,3) by (rule py_slice_middle)
  have "list_all is_bit mid"
    unfolding mid_def using assms(1) by (rule bits_take_drop)
  then have dec: "decode_units mid =
      Inr (map (\<lambda>k. digits_value 2 (take 8 (drop (8 * k) mid))) [0..<(length mid + 7) div 8])"
    by (rule decode_units_bits)
  have "unframe_data self frame =
      Inr (Some (int (digits_value 2 (take 2 frame))),
           Some (map (\<lambda>k. digits_value 2 (take 8 (drop (8 * k) mid))) [0..<(length mid + 7) div 8]),
           False)"
    unfolding unframe_data_def using long assms(4)
    by (simp add: pbind_def Let_def head mid dec)
  then show ?thesis by (simp add: mid_def)
qed

lemma frame_data_checked:
  assumes "list_all is_bit (polynomial self)" and "2 \<le> length (polynomial self)"
    and "length (polynomial self) \<le> 4301"
  shows "\<exists>crc. frame_data self data s =
                 Inr ((zfill 2 (bin_digits (nat (s mod 4))) @ concat (map format_08b data)) @ crc) \<and>
               length crc = length (polynomial self) - 1 \<and> list_all is_bit crc \<and>
               check_crc ((zfill 2 (bin_digits (nat (s mod 4))) @ concat (map format_08b data)) @ crc)
                 (polynomial self) = Inr True"
proof -
  have "list_all is_bit (zfill 2 (bin_digits (nat (s mod 4))) @ concat (map format_08b data))"
    using seq_field [of s] by (simp add: data_bits_bits)
  from crc_appended_checks [OF this assms] show ?thesis
    by (auto simp: frame_data_def Let_def pbind_def)
qed

lemma frame_unframe:
  assumes "polynomial sender_node = ''1011''" and "polynomial receiver_node = ''1011''"
  shows "\<exists>frame data'. frame_data sender_node data s = Inr frame \<and> list_all is_bit frame \<and>
           5 \<le> length frame \<and>
           unframe_data receiver_node frame = Inr (Some (s mod 4), Some data', False) \<and>
           ((\<forall>c\<in>set data. c < 256) \<longrightarrow> data' = data)"
proof -
  define sq where "sq = zfill 2 (bin_digits (nat (s mod 4)))"
  define bits where "bits = concat (map format_08b data)"
  have pb: "list_all is_bit (polynomial sender_node)" "2 \<le> length (polynomial sender_node)"
    "length (polynomial sender_node) \<le> 4301"
    using assms(1) by (simp_all add: is_bit_def)
  from frame_data_checked [OF pb, of data s] obtain crc where
    fr: "frame_data sender_node data s = Inr ((sq @ bits) @ crc)" and
    len: "length crc = 3" and cb: "list_all is_bit crc" and
    ok: "check_crc ((sq @ bits) @ crc) ''1011'' = Inr True"
    using assms(1) by (auto simp: sq_def bits_def)
  have sqf: "list_all is_bit sq" "length sq = 2" "int (digits_value 2 sq) = s mod 4"
    using seq_field [of s] by (simp_all add: sq_def)
  have fb: "list_all is_bit ((sq @ bits) @ crc)"
    using sqf(1) cb by (simp add: bits_def data_bits_bits)
  have l5: "5 \<le> length ((sq @ bits) @ crc)" using sqf(2) len by simp
  have un: "unframe_data receiver_node ((sq @ bits) @ crc) =
      Inr (Some (s mod 4),
           Some (map (\<lambda>k. digits_value 2 (take 8 (drop (8 * k) bits))) [0..<(length bits + 7) div 8]),
           False)"
    using unframe_data_bits [of "(sq @ bits) @ crc" receiver_node] fb ok sqf len
    by (simp add: assms(2))
  have "(\<forall>c\<in>set data. c < 256) \<longrightarrow>
      map (\<lambda>k. digits_value 2 (take 8 (drop (8 * k) bits))) [0..<(length bits + 7) div 8] = data"
  proof
    assume small: "\<forall>c\<in>set data. c < 256"
    have "decode_units bits = Inr data"
      unfolding bits_def using small by (rule decode_units_data_bits)
    moreover have "list_all is_bit bits" by (simp add: bits_def data_bits_bits)
    ultimately show "map (\<lambda>k. digits_value 2 (take 8 (drop (8 * k) bits))) [0..<(length bits + 7) div 8] = data"
      by (simp add: decode_units_bits)
  qed
  with fr fb l5 un show ?thesis by blast
qed

lemma default_polynomial [simp]: "polynomial (init_node nm) = ''1011''"
  by (simp add: init_node_def)

lemma frame_example: "frame_data (init_node ''Sender'') [72] 5 = Inr ''0101001000111''"
  by code_simp

text \<open>
  C1: with the default generator at both nodes, for every sequence number in \<open>[0, 4)\<close>
  and every payload whose characters have code points below 256, \<^verbatim>\<open>frame_data\<close>
  returns a frame and \<^verbatim>\<open>unframe_data\<close> on it returns the sequence number, the payload
  and \<^verbatim>\<open>is_corrupted = False\<close>.
\<close>

theorem framer_round_trip:
  assumes "polynomial sender_node = ''1011''" and "polynomial receiver_node = ''1011''"
    and "0 \<le> seq" and "seq < 4" and "\<forall>c\<in>set payload. c < 256"
  shows "\<exists>frame. frame_data sender_node payload seq = Inr frame \<and>
                 unframe_data receiver_node frame = Inr (Some seq, Some payload, False)"
proof -
  from frame_unframe [OF assms(1,2), of payload seq] obtain frame data' where
    "frame_data sender_node payload seq = Inr frame"
    "unframe_data receiver_node frame = Inr (Some (seq mod 4), Some data', False)"
    "(\<forall>c\<in>set payload. c < 256) \<longrightarrow> data' = payload"
    by blast
  moreover have "seq mod 4 = seq" using assms(3,4) by simp
  ultimately show ?thesis using assms(5) by auto
qed

text \<open>C1, witness: the payload \<^verbatim>\<open>Hi\<close> with sequence number 1.\<close>

theorem framer_round_trip_witness:
  "polynomial (init_node ''Sender'') = ''1011'' \<and> polynomial (init_node ''Receiver'') = ''1011'' \<and>
   (0::int) \<le> 1 \<and> (1::int) < 4 \<and> (72::nat) < 256 \<and> (105::nat) < 256 \<and>
   (\<exists>frame. frame_data (init_node ''Sender'') [72, 105] 1 = Inr frame \<and>
            unframe_data (init_node ''Receiver'') frame = Inr (Some 1, Some [72, 105], False))"
  using framer_round_trip [of "init_node ''Sender''" "init_node ''Receiver''" 1 "[72, 105]"]
  by simp

text \<open>
  C10: \<^verbatim>\<open>frame_data\<close> depends on the sequence number only through its residue modulo 4
  (for every integer, so for every natural number), and \<^verbatim>\<open>unframe_data\<close> on the frame
  returns that residue, which differs from the number itself from 4 on.
\<close>

theorem sequence_number_wraps:
  assumes "polynomial sender_node = ''1011''" and "polynomial receiver_node = ''1011''"
  shows "frame_data sender_node p s = frame_data sender_node p (s mod 4) \<and>
         (\<exists>frame data. frame_data sender_node p s = Inr frame \<and>
            unframe_data receiver_node frame = Inr (Some (s mod 4), Some data, False)) \<and>
         (4 \<le> s \<longrightarrow> s mod 4 \<noteq> s)"
proof -
  have "frame_data sender_node p s = frame_data sender_node p (s mod 4)"
    by (simp add: frame_data_def)
  moreover from frame_unframe [OF assms, of p s]
  have "\<exists>frame data. frame_data sender_node p s = Inr frame \<and>
            unframe_data receiver_node frame = Inr (Some (s mod 4), Some data, False)"
    by blast
  moreover have "4 \<le> s \<longrightarrow> s mod 4 \<noteq> s"
  proof
    assume "4 \<le> s"
    moreover have "s mod 4 < 4" by simp
    ultimately show "s mod 4 \<noteq> s" by linarith
  qed
  ultimately show ?thesis by blast
qed

text \<open>C10, witness: the payload \<^verbatim>\<open>H\<close> with sequence number 5 is framed and read back as
  sequence number 1.\<close>

theorem sequence_number_wraps_witness:
  "polynomial (init_node ''Sender'') = ''1011'' \<and> polynomial (init_node ''Receiver'') = ''1011'' \<and>
   frame_data (init_node ''Sender'') [72] 5 = Inr ''0101001000111'' \<and>
   frame_data (init_node ''Sender'') [72] 5 = frame_data (init_node ''Sender'') [72] (5 mod 4) \<and>
   unframe_data (init_node ''Receiver'') ''0101001000111'' = Inr (Some 1, Some [72], False)"
proof -
  from sequence_number_wraps [of "init_node ''Sender''" "init_node ''Receiver''" "[72]" 5]
  obtain frame data where
    w: "frame_data (init_node ''Sender'') [72] 5 = frame_data (init_node ''Sender'') [72] (5 mod 4)"
    and f: "frame_data (init_node ''Sender'') [72] 5 = Inr frame"
    and u: "unframe_data (init_node ''Receiver'') frame = Inr (Some (5 mod 4), Some data, False)"
    by auto
  from frame_unframe [of "init_node ''Sender''" "init_node ''Receiver''" "[72]" 5]
  obtain frame' data' where
    f': "frame_data (init_node ''Sender'') [72] 5 = Inr frame'"
    and u': "unframe_data (init_node ''Receiver'') frame' = Inr (Some (5 mod 4), Some data', False)"
    and d': "data' = [72]"
    by auto
  from f frame_example have "frame = ''0101001000111''" by simp
  moreover from f' frame_example have "frame' = ''0101001000111''" by simp
  ultimately show ?thesis using w u u' d' frame_example by simp
qed

text \<open>
  C9 (as the code has it): a frame of bits that passes the length check and the CRC check
  and whose payload bits are not a multiple of eight is decoded without failure, and
  the trailing partial unit is not dropped: the result has one character for every
  complete unit and one more, whose code point is the value of the remaining bits.
\<close>

theorem partial_unit_decoded:
  assumes "polynomial self = ''1011''" and "list_all is_bit frame" and "5 \<le> length frame"
    and "check_crc frame ''1011'' = Inr True" and "(length frame - 5) mod 8 \<noteq> 0"
  shows "\<exists>seq data. unframe_data self frame = Inr (Some seq, Some data, False) \<and>
           length data = (length frame - 5) div 8 + 1 \<and>
           (\<forall>k < (length frame - 5) div 8.
              data ! k = digits_value 2 (take 8 (drop (8 * k) (take (length frame - 5) (drop 2 frame))))) \<and>
           last data = digits_value 2
              (drop (8 * ((length frame - 5) div 8)) (take (length frame - 5) (drop 2 frame)))"
proof -
  define mid where "mid = take (length frame - 5) (drop 2 frame)"
  define q where "q = (length frame - 5) div 8"
  define g where "g = (\<lambda>k. digits_value 2 (take 8 (drop (8 * k) mid)))"
  have lm: "length mid = length frame - 5" using assms(3) by (simp add: mid_def)
  have cnt: "(length mid + 7) div 8 = q + 1"
    using assms(5) unfolding lm q_def by presburger
  have lp: "length (polynomial self) = 4" by (simp add: assms(1))
  have e: "length frame - (length (polynomial self) - 1) - 2 = length frame - 5"
    unfolding lp by simp
  have "2 \<le> length (polynomial self)" and "length (polynomial self) + 1 \<le> length frame"
    and "check_crc frame (polynomial self) = Inr True"
    using assms(3,4) lp by (simp_all add: assms(1))
  with assms(2) have
    "unframe_data self frame = Inr (Some (int (digits_value 2 (take 2 frame))),
        Some (map (\<lambda>k. digits_value 2 (take 8 (drop (8 * k)
                (take (length frame - (length (polynomial self) - 1) - 2) (drop 2 frame)))))
              [0..<(length (take (length frame - (length (polynomial self) - 1) - 2) (drop 2 frame)) + 7) div 8]),
        False)"
    by (rule unframe_data_bits)
  then have un: "unframe_data self frame = Inr (Some (int (digits_value 2 (take 2 frame))),
              Some (map g [0..<(length mid + 7) div 8]), False)"
    unfolding e mid_def [symmetric] g_def [symmetric] .
  have short: "length (drop (8 * q) mid) \<le> 8"
    unfolding q_def using lm by simp
  have "last (map g [0..<q + 1]) = g q" by simp
  also have "\<dots> = digits_value 2 (drop (8 * q) mid)"
    using short by (simp add: g_def)
  finally have l: "last (map g [0..<q + 1]) = digits_value 2 (drop (8 * q) mid)" .
  have n: "\<forall>k<q. map g [0..<q + 1] ! k = digits_value 2 (take 8 (drop (8 * k) mid))"
    by (simp add: g_def nth_append)
  have "length (map g [0..<q + 1]) = q + 1" by simp
  with un l n show ?thesis
    unfolding cnt mid_def [symmetric] q_def [symmetric] by blast
qed

lemma check_example: "check_crc ''00101100'' ''1011'' = Inr True"
  by code_simp

text \<open>C9, counterexample to the claim as stated: the frame \<open>00101100\<close> has sequence bits
  \<open>00\<close>, payload bits \<open>101\<close> and check value \<open>100\<close>; it has no complete unit, and the
  returned data is the one character with code point 5, not the empty string.\<close>

theorem partial_unit_not_dropped:
  "unframe_data (init_node ''Receiver'') ''00101100'' = Inr (Some 0, Some [5], False)"
  using unframe_data_bits [of "''00101100''" "init_node ''Receiver''"] check_example
  by (simp add: is_bit_def digits_value_def)

text \<open>C9, witness: the same frame.\<close>

theorem partial_unit_decoded_witness:
  "polynomial (init_node ''Receiver'') = ''1011'' \<and> list_all is_bit ''00101100'' \<and>
   5 \<le> length ''00101100'' \<and> check_crc ''00101100'' ''1011'' = Inr True \<and>
   (length ''00101100'' - 5) mod 8 \<noteq> 0 \<and>
   (\<exists>seq data. unframe_data (init_node ''Receiver'') ''00101100'' = Inr (Some seq, Some data, False) \<and>
      length data = 1 \<and> last data = digits_value 2 ''101'')"
  using partial_unit_decoded [of "init_node ''Receiver''" "''00101100''"] check_example
  by (simp add: is_bit_def)

section \<open>The receiver\<close>

lemma map_of_delete_other: "k \<noteq> n \<Longrightarrow> map_of (AList.delete n frames) k = map_of frames k"
  by (simp add: delete_conv)

lemma map_of_delete_same: "map_of (AList.delete n frames) n = None"
  by (simp add: delete_conv)

lemma deliver_buffered_spec:
  "deliver_buffered n frames delivered = (m, frames', delivered') \<Longrightarrow>
     n \<le> m \<and> (\<forall>k. n \<le> k \<and> k < m \<longrightarrow> map_of frames k \<noteq> None) \<and> map_of frames m = None \<and>
     (\<exists>ds. delivered' = delivered @ ds \<and>
           map (\<lambda>(k, v). (k, Some v)) ds = map (\<lambda>k. (k, map_of frames k)) [n..m - 1]) \<and>
     map_of frames' = (\<lambda>k. if n \<le> k \<and> k < m then None else map_of frames k)"
proof (induction n frames delivered rule: deliver_buffered.induct)
  case (1 n frames delivered)
  show ?case
  proof (cases "map_of frames n")
    case None
    with "1.prems" have "m = n" "frames' = frames" "delivered' = delivered"
      by (simp_all add: deliver_buffered.simps [of n frames delivered])
    with None show ?thesis by (auto simp: fun_eq_iff)
  next
    case (Some d)
    with "1.prems" have rec:
      "deliver_buffered (n + 1) (AList.delete n frames) (delivered @ [(n, d)]) = (m, frames', delivered')"
      by (simp add: deliver_buffered.simps [of n frames delivered])
    from "1.IH" [OF Some rec] obtain ds where
      le: "n + 1 \<le> m" and
      dom: "\<forall>k. n + 1 \<le> k \<and> k < m \<longrightarrow> map_of (AList.delete n frames) k \<noteq> None" and
      stop: "map_of (AList.delete n frames) m = None" and
      del: "delivered' = (delivered @ [(n, d)]) @ ds" and
      ds: "map (\<lambda>(k, v). (k, Some v)) ds = map (\<lambda>k. (k, map_of (AList.delete n frames) k)) [n + 1..m - 1]" and
      rest: "map_of frames' = (\<lambda>k. if n + 1 \<le> k \<and> k < m then None else map_of (AList.delete n frames) k)"
      by blast
    have a: "n \<le> m" using le by simp
    have b: "\<forall>k. n \<le> k \<and> k < m \<longrightarrow> map_of frames k \<noteq> None"
    proof (intro allI impI)
      fix k assume k: "n \<le> k \<and> k < m"
      show "map_of frames k \<noteq> None"
      proof (cases "k = n")
        case True with Some show ?thesis by simp
      next
        case False
        with k dom have "map_of (AList.delete n frames) k \<noteq> None" by simp
        with False show ?thesis by (simp add: map_of_delete_other)
      qed
    qed
    have c: "map_of frames m = None"
      using stop le by (simp add: map_of_delete_other)
    have up: "[n..m - 1] = n # [n + 1..m - 1]"
      using le by (simp add: upto_rec1)
    have "map (\<lambda>k. (k, map_of (AList.delete n frames) k)) [n + 1..m - 1]
          = map (\<lambda>k. (k, map_of frames k)) [n + 1..m - 1]"
      by (rule map_cong) (simp_all add: map_of_delete_other)
    with ds have "map (\<lambda>(k, v). (k, Some v)) ((n, d) # ds) = map (\<lambda>k. (k, map_of frames k)) [n..m - 1]"
      by (simp add: up Some)
    with del have d: "\<exists>ds. delivered' = delivered @ ds \<and>
           map (\<lambda>(k, v). (k, Some v)) ds = map (\<lambda>k. (k, map_of frames k)) [n..m - 1]"
      by (intro exI [of _ "(n, d) # ds"]) simp
    have e: "map_of frames' = (\<lambda>k. if n \<le> k \<and> k < m then None else map_of frames k)"
    proof
      fix k
      show "map_of frames' k = (if n \<le> k \<and> k < m then None else map_of frames k)"
        using le by (cases "k = n") (auto simp: rest map_of_delete_other map_of_delete_same)
    qed
    from a b c d e show ?thesis by blast
  qed
qed

text \<open>
  C4: a frame whose sequence number is the one awaited is acknowledged with that very
  number. The delivery pointer moves past it and past every buffered frame that follows
  without a gap, up to the first number \<open>m\<close> that is not buffered; the deliveries are
  the frame itself and then the buffered frames \<open>s + 1, \<dots>, m - 1\<close> in ascending
  order, each removed from the buffer. Nothing else of the node changes.
\<close>

theorem in_order_receive:
  assumes "s = next_frame_to_deliver self"
    and "process_received_frame self (Some s) data = (ack, delivered, self')"
  shows "ack = Some s \<and>
         s < next_frame_to_deliver self' \<and>
         (\<forall>k. s < k \<and> k < next_frame_to_deliver self' \<longrightarrow> map_of (received_frames self) k \<noteq> None) \<and>
         map_of (received_frames self) (next_frame_to_deliver self') = None \<and>
         map (\<lambda>(k, v). (k, Some v)) delivered =
           (s, Some data) # map (\<lambda>k. (k, map_of (received_frames self) k)) [s + 1..next_frame_to_deliver self' - 1] \<and>
         map_of (received_frames self') =
           (\<lambda>k. if s < k \<and> k < next_frame_to_deliver self' then None else map_of (received_frames self) k) \<and>
         self' = self\<lparr>received_frames := received_frames self',
                      next_frame_to_deliver := next_frame_to_deliver self'\<rparr>"
proof -
  obtain m frames ds where run:
    "deliver_buffered (s + 1) (received_frames self) [(s, data)] = (m, frames, ds)"
    by (metis prod_cases3)
  with assms have res: "ack = Some s" "delivered = ds"
    "self' = self\<lparr>received_frames := frames, next_frame_to_deliver := m\<rparr>"
    by (simp_all add: process_received_frame_def)
  from deliver_buffered_spec [OF run] obtain ds' where
    le: "s + 1 \<le> m" and
    dom: "\<forall>k. s + 1 \<le> k \<and> k < m \<longrightarrow> map_of (received_frames self) k \<noteq> None" and
    stop: "map_of (received_frames self) m = None" and
    del: "ds = [(s, data)] @ ds'" and
    ds: "map (\<lambda>(k, v). (k, Some v)) ds' = map (\<lambda>k. (k, map_of (received_frames self) k)) [s + 1..m - 1]" and
    rest: "map_of frames = (\<lambda>k. if s + 1 \<le> k \<and> k < m then None else map_of (received_frames self) k)"
    by blast
  have m: "next_frame_to_deliver self' = m" and f: "received_frames self' = frames"
    using res by simp_all
  have "map_of frames = (\<lambda>k. if s < k \<and> k < m then None else map_of (received_frames self) k)"
    unfolding rest by (rule ext) auto
  moreover have "\<forall>k. s < k \<and> k < m \<longrightarrow> map_of (received_frames self) k \<noteq> None"
    using dom by auto
  moreover have "s < m" using le by simp
  ultimately show ?thesis
    unfolding m f using res stop del ds by simp
qed

text \<open>C4, witness: frame 0 arrives while 1, 2 and 4 are buffered; the acknowledgment is 0
  and the pointer ends at 3.\<close>

theorem in_order_receive_witness:
  "0 = next_frame_to_deliver example_receiver \<and>
   process_received_frame example_receiver (Some 0) (Some [72]) =
     (Some 0, [(0, Some [72]), (1, Some [65]), (2, Some [66])],
      example_receiver\<lparr>received_frames := [(4, Some [67])], next_frame_to_deliver := 3\<rparr>) \<and>
   map_of (received_frames example_receiver) 3 = None \<and>
   map (\<lambda>(k, v). (k, Some v)) [(0, Some [72]), (1, Some [65]), (2, Some [66 :: nat])] =
     (0, Some (Some [72])) # map (\<lambda>k. (k, map_of (received_frames example_receiver) k)) [0 + 1..3 - 1]"
proof -
  have h1: "0 = next_frame_to_deliver example_receiver"
    by (simp add: example_receiver_def init_node_def)
  have h2: "process_received_frame example_receiver (Some 0) (Some [72]) =
     (Some 0, [(0, Some [72]), (1, Some [65]), (2, Some [66])],
      example_receiver\<lparr>received_frames := [(4, Some [67])], next_frame_to_deliver := 3\<rparr>)"
    by code_simp
  from in_order_receive [OF h1 h2] h1 h2 show ?thesis
    by simp
qed

text \<open>
  C6: a frame whose sequence number is above the one awaited is stored in the buffer
  under its number, replacing what was there; the delivery pointer stays, nothing is
  delivered, and the acknowledgment is \<open>next_frame_to_deliver - 1\<close> if
  \<open>next_frame_to_deliver > 0\<close> and \<open>None\<close> otherwise.
\<close>

theorem out_of_order_receive:
  assumes "next_frame_to_deliver self < s"
    and "process_received_frame self (Some s) data = (ack, delivered, self')"
  shows "ack = (if next_frame_to_deliver self > 0 then Some (next_frame_to_deliver self - 1) else None) \<and>
         delivered = [] \<and>
         map_of (received_frames self') = (map_of (received_frames self))(s \<mapsto> data) \<and>
         next_frame_to_deliver self' = next_frame_to_deliver self \<and>
         self' = self\<lparr>received_frames := AList.update s data (received_frames self)\<rparr>"
  using assms by (auto simp: process_received_frame_def update_conv')

text \<open>C6, witness: frame 3 arrives while frame 0 is awaited.\<close>

theorem out_of_order_receive_witness:
  "next_frame_to_deliver example_receiver < 3 \<and>
   process_received_frame example_receiver (Some 3) (Some [72]) =
     (None, [],
      example_receiver\<lparr>received_frames := [(2, Some [66]), (1, Some [65]), (4, Some [67]), (3, Some [72])]\<rparr>) \<and>
   map_of [(2, Some [66]), (1, Some [65]), (4, Some [67]), (3, Some [72 :: nat])] =
     (map_of (received_frames example_receiver))(3 :: int \<mapsto> Some [72])"
proof -
  have h1: "next_frame_to_deliver example_receiver < 3"
    by (simp add: example_receiver_def init_node_def)
  have h2: "process_received_frame example_receiver (Some 3) (Some [72]) =
     (None, [],
      example_receiver\<lparr>received_frames := [(2, Some [66]), (1, Some [65]), (4, Some [67]), (3, Some [72])]\<rparr>)"
    by code_simp
  from out_of_order_receive [OF h1 h2] h1 h2 show ?thesis
    by simp
qed

section \<open>The step driver\<close>

lemma receive_ack_window:
  "next_frame_to_send (receive_ack s a) = next_frame_to_send s \<and>
   window_size (receive_ack s a) = window_size s \<and>
   expected_frame_ack s \<le> expected_frame_ack (receive_ack s a)"
  by (simp add: receive_ack_def)

lemma deliver_frame_sender:
  "deliver_frame gui out = Inr gui1 \<Longrightarrow>
     sender gui1 = sender gui \<or> (\<exists>a. sender gui1 = receive_ack (sender gui) a)"
  by (auto simp: deliver_frame_def pbind_def split: option.splits sum.splits prod.splits if_splits)

lemma deliver_frame_window:
  assumes "deliver_frame gui out = Inr gui1"
  shows "next_frame_to_send (sender gui1) = next_frame_to_send (sender gui) \<and>
         window_size (sender gui1) = window_size (sender gui) \<and>
         expected_frame_ack (sender gui) \<le> expected_frame_ack (sender gui1)"
  using deliver_frame_sender [OF assms] receive_ack_window by auto

lemma completion_check_sender [simp]: "sender (completion_check gui) = sender gui"
  by (simp add: completion_check_def end_simulation_def)

lemma completion_check_receiver [simp]: "receiver (completion_check gui) = receiver gui"
  by (simp add: completion_check_def end_simulation_def)

lemma step_window:
  assumes "next_simulation_step flag d gui = Inr gui'"
    and "next_frame_to_send (sender gui) - expected_frame_ack (sender gui) \<le> window_size (sender gui)"
  shows "next_frame_to_send (sender gui') - expected_frame_ack (sender gui') \<le> window_size (sender gui')"
proof (cases "is_running gui \<and> can_send_new_frame (sender gui)")
  case False
  with assms show ?thesis
    by (auto simp: next_simulation_step_def end_simulation_def split: if_splits)
next
  case True
  with assms(1) obtain c f gui1 where
    g1: "deliver_frame gui (simulate_channel_gui f flag d) = Inr gui1" and
    g': "gui' = completion_check (gui1\<lparr>sender := (sender gui1)
                          \<lparr>next_frame_to_send := next_frame_to_send (sender gui1) + 1\<rparr>\<rparr>)"
    by (auto simp: next_simulation_step_def pbind_def split: sum.splits)
  from True have "next_frame_to_send (sender gui) < expected_frame_ack (sender gui) + window_size (sender gui)"
    by (simp add: can_send_new_frame_def)
  with deliver_frame_window [OF g1] show ?thesis
    by (simp add: g')
qed

text \<open>
  C3: in every state reachable from a start of the simulation by steps and by
  acknowledgments, \<open>next_frame_to_send - expected_frame_ack \<le> window_size\<close> holds in the
  sender.
\<close>

theorem flow_control_invariant:
  "reachable gui \<Longrightarrow>
     next_frame_to_send (sender gui) - expected_frame_ack (sender gui) \<le> window_size (sender gui)"
proof (induction rule: reachable.induct)
  case (start data_input gui)
  then show ?case
    by (auto simp: start_simulation_def init_node_def Let_def split: if_splits)
next
  case (step gui flag d gui')
  then show ?case
    using step_window [of flag d gui gui'] by simp
next
  case (ack gui a)
  then show ?case
    using receive_ack_window [of "sender gui" a] by simp
qed

section \<open>A step never fails on a started simulation\<close>

lemma py_int_bits:
  assumes "\<forall>x\<in>set r. x < 2" and "r \<noteq> []" and "length r \<le> 4300"
  shows "\<exists>v. py_int (map digit_char r) = Inr v"
proof -
  have "list_all is_bit (map digit_char r)" using assms(1) by (rule bits_digit_char)
  then have "list_all is_digit (map digit_char r)"
    by (simp add: list_all_iff is_bit_is_digit)
  then show ?thesis using assms(2,3) by (simp add: py_int_def)
qed

text \<open>\<^verbatim>\<open>check_crc\<close> returns on every bit string that is not shorter than the check value.\<close>

lemma check_crc_total:
  assumes "list_all is_bit frame" and "list_all is_bit p" and "2 \<le> length p"
    and "length p \<le> length frame + 1" and "length p \<le> 4301"
  shows "\<exists>ok. check_crc frame p = Inr ok"
proof -
  define F where "F = map digit_value frame"
  define P where "P = map digit_value p"
  define m where "m = length frame + 1 - length p"
  define T where "T = divide_loop F P m"
  have P: "P \<noteq> []" "length P = length p" using assms(3) by (auto simp: P_def)
  have lenF: "length F = length frame" by (simp add: F_def)
  have k: "m + length P \<le> length F + 1" using assms(4) by (simp add: m_def P lenF)
  have lenT: "length T = length F" unfolding T_def using k P(1) by (rule length_divide_loop)
  have Fb: "\<forall>j<length F. F ! j < 2"
    using bits_digit_value [OF assms(1)] by (simp add: F_def)
  have Pb: "\<forall>j<length P. P ! j < 2"
    using bits_digit_value [OF assms(2)] by (simp add: P_def)
  have Tb: "\<forall>j<length F. T ! j < 2"
    unfolding T_def using k P(1) Fb Pb by (rule divide_loop_bits)
  then have "\<forall>x \<in> set T. x < 2" using lenT by (auto simp: in_set_conv_nth)
  then have rb: "\<forall>x \<in> set (drop m T). x < 2" by (meson in_set_dropD)
  have rne: "drop m T \<noteq> []" using lenT lenF assms(3,4) by (simp add: m_def)
  have rlen: "length (drop m T) \<le> 4300" using lenT lenF assms(3,4,5) by (simp add: m_def)
  have mi: "int (length F) - int (length P) + 1 = int m"
    using assms(4) by (simp add: m_def P lenF)
  have sl: "py_slice_from T (int m) = drop m T"
    by (cases "m \<le> length T") (simp_all add: py_slice_from_def slice_bound_def min_def)
  from py_int_bits [OF rb rne rlen] obtain v where v: "py_int (map digit_char (drop m T)) = Inr v" ..
  have "check_crc frame p =
          pbind (py_int (concat (map str_nat (py_slice_from
                   (divide_loop F P (nat (int (length F) - int (length P) + 1)))
                   (int (length F) - int (length P) + 1)))))
            (\<lambda>v. Inr (v = 0))"
    using P(1) assms(1,2) by (simp add: check_crc_def int_list_bits pbind_def Let_def F_def P_def)
  also have "\<dots> = pbind (py_int (concat (map str_nat (py_slice_from T (int m))))) (\<lambda>v. Inr (v = 0))"
    unfolding mi by (simp add: T_def)
  also have "\<dots> = Inr (v = 0)"
    by (simp add: sl concat_str_bits [OF rb] v pbind_def)
  finally show ?thesis by blast
qed

lemma unframe_data_total:
  assumes "list_all is_bit frame" and "polynomial self = ''1011''"
  shows "\<exists>seq_num data is_corrupted. unframe_data self frame = Inr (seq_num, data, is_corrupted)"
proof (cases "length frame < 5")
  case True
  then have "unframe_data self frame = Inr (None, None, True)"
    by (simp add: unframe_data_def assms(2))
  then show ?thesis by blast
next
  case False
  have pb: "list_all is_bit (polynomial self)" "2 \<le> length (polynomial self)"
    "length (polynomial self) \<le> length frame + 1" "length (polynomial self) + 1 \<le> length frame"
    "length (polynomial self) \<le> 4301"
    using False by (simp_all add: assms(2) is_bit_def)
  from check_crc_total [OF assms(1) pb(1,2,3,5)] obtain ok where
    ok: "check_crc frame (polynomial self) = Inr ok" ..
  show ?thesis
  proof (cases ok)
    case True
    with ok have "check_crc frame (polynomial self) = Inr True" by simp
    from unframe_data_bits [OF assms(1) pb(2,4) this] show ?thesis by (intro exI)
  next
    case no: False
    have "unframe_data self frame = Inr (None, None, True)"
      using False ok no by (simp add: unframe_data_def assms(2) pbind_def)
    then show ?thesis by blast
  qed
qed

lemma channel_bits:
  assumes "simulate_channel_gui frame flag d = Some received" and "list_all is_bit frame"
  shows "list_all is_bit received"
proof (cases "flag \<and> hit d")
  case False
  with assms show ?thesis by (auto simp: simulate_channel_gui_def split: if_splits)
next
  case True
  with assms(1) obtain c where "is_bit c" and "received = frame[error_index d := c]"
    by (auto simp: simulate_channel_gui_def Let_def is_bit_def split: if_splits)
  with assms(2) show ?thesis
    by (auto simp: list_all_iff dest: set_update_subset_insert [THEN subsetD])
qed

lemma process_received_frame_fields:
  assumes "process_received_frame self seq_num data = (ack, delivered, self')"
  shows "polynomial self' = polynomial self"
  using assms
  by (auto simp: process_received_frame_def split: option.splits prod.splits if_splits)

lemma receive_ack_fields:
  "polynomial (receive_ack s a) = polynomial s \<and> send_buffer (receive_ack s a) = send_buffer s"
  by (simp add: receive_ack_def)

lemma deliver_frame_fields:
  assumes "deliver_frame gui out = Inr gui1"
  shows "polynomial (sender gui1) = polynomial (sender gui) \<and>
         polynomial (receiver gui1) = polynomial (receiver gui) \<and>
         is_running gui1 = is_running gui"
  using assms
  by (auto simp: deliver_frame_def pbind_def receive_ack_fields
           split: option.splits sum.splits prod.splits if_splits
           dest: process_received_frame_fields)

lemma deliver_frame_total:
  assumes "polynomial (receiver gui) = ''1011''" and "\<forall>f. out = Some f \<longrightarrow> list_all is_bit f"
  shows "\<exists>gui1. deliver_frame gui out = Inr gui1"
proof (cases out)
  case None
  then show ?thesis by (simp add: deliver_frame_def)
next
  case (Some f)
  with assms(2) have "list_all is_bit f" by simp
  from unframe_data_total [OF this assms(1)] obtain sn du ic where
    "unframe_data (receiver gui) f = Inr (sn, du, ic)" by blast
  with Some show ?thesis
    by (cases "process_received_frame (receiver gui) sn du")
       (auto simp: deliver_frame_def pbind_def split: option.splits)
qed

lemma frame_data_total:
  assumes "polynomial self = ''1011''"
  shows "\<exists>frame. frame_data self data s = Inr frame \<and> list_all is_bit frame"
  using frame_unframe [OF assms assms, of data s] by blast

text \<open>A step that sends: the character is read, the frame is built, the receiver and
  the sender handle what the channel gives, and the send pointer advances.\<close>

lemma step_send:
  assumes "is_running gui" and "can_send_new_frame (sender gui)"
    and "0 \<le> next_frame_to_send (sender gui)"
    and "polynomial (sender gui) = ''1011''" and "polynomial (receiver gui) = ''1011''"
  shows "\<exists>data_char frame gui1.
           py_nth (send_buffer (sender gui)) (next_frame_to_send (sender gui)) = Inr data_char \<and>
           frame_data (sender gui) data_char (next_frame_to_send (sender gui)) = Inr frame \<and>
           deliver_frame gui (simulate_channel_gui frame flag d) = Inr gui1 \<and>
           next_simulation_step flag d gui =
             Inr (completion_check (gui1\<lparr>sender := (sender gui1)
                    \<lparr>next_frame_to_send := next_frame_to_send (sender gui1) + 1\<rparr>\<rparr>))"
proof -
  have "next_frame_to_send (sender gui) < int (length (send_buffer (sender gui)))"
    using assms(2) by (simp add: can_send_new_frame_def)
  with assms(3) obtain c where
    c: "py_nth (send_buffer (sender gui)) (next_frame_to_send (sender gui)) = Inr c"
    by (simp add: py_nth_def)
  from frame_data_total [OF assms(4)] obtain f where
    f: "frame_data (sender gui) c (next_frame_to_send (sender gui)) = Inr f"
    and fb: "list_all is_bit f"
    by blast
  have "\<forall>r. simulate_channel_gui f flag d = Some r \<longrightarrow> list_all is_bit r"
    using fb by (blast intro: channel_bits)
  from deliver_frame_total [OF assms(5) this] obtain gui1 where
    g: "deliver_frame gui (simulate_channel_gui f flag d) = Inr gui1" ..
  have "next_simulation_step flag d gui =
          Inr (completion_check (gui1\<lparr>sender := (sender gui1)
                 \<lparr>next_frame_to_send := next_frame_to_send (sender gui1) + 1\<rparr>\<rparr>))"
    using assms(1,2) by (simp add: next_simulation_step_def c f g pbind_def)
  with c f g show ?thesis by blast
qed

lemma step_fields:
  assumes "next_simulation_step flag d gui = Inr gui'"
  shows "polynomial (sender gui') = polynomial (sender gui) \<and>
         polynomial (receiver gui') = polynomial (receiver gui) \<and>
         next_frame_to_send (sender gui) \<le> next_frame_to_send (sender gui')"
proof (cases "is_running gui \<and> can_send_new_frame (sender gui)")
  case False
  with assms show ?thesis
    by (auto simp: next_simulation_step_def end_simulation_def split: if_splits)
next
  case True
  with assms obtain f gui1 where
    g1: "deliver_frame gui (simulate_channel_gui f flag d) = Inr gui1" and
    g': "gui' = completion_check (gui1\<lparr>sender := (sender gui1)
                          \<lparr>next_frame_to_send := next_frame_to_send (sender gui1) + 1\<rparr>\<rparr>)"
    by (auto simp: next_simulation_step_def pbind_def split: sum.splits)
  from deliver_frame_fields [OF g1] deliver_frame_window [OF g1] show ?thesis
    by (simp add: g')
qed

lemma reachable_nodes:
  "reachable gui \<Longrightarrow>
     polynomial (sender gui) = ''1011'' \<and> polynomial (receiver gui) = ''1011'' \<and>
     0 \<le> next_frame_to_send (sender gui)"
proof (induction rule: reachable.induct)
  case (start data_input gui)
  then show ?case
    by (auto simp: start_simulation_def init_node_def Let_def split: if_splits)
next
  case (step gui flag d gui')
  with step_fields [OF step.hyps(2)] show ?case by simp
next
  case (ack gui a)
  then show ?case by (simp add: receive_ack_fields receive_ack_window)
qed

text \<open>A step whose frame the channel loses.\<close>

lemma lost_step:
  assumes "is_running gui" and "can_send_new_frame (sender gui)"
    and "0 \<le> next_frame_to_send (sender gui)"
    and "polynomial (sender gui) = ''1011''" and "polynomial (receiver gui) = ''1011''"
    and "lost d"
  shows "next_simulation_step flag d gui =
           Inr (completion_check (gui\<lparr>sender := (sender gui)
                  \<lparr>next_frame_to_send := next_frame_to_send (sender gui) + 1\<rparr>\<rparr>))"
proof -
  from step_send [OF assms(1-5), of flag d] obtain c f gui1 where
    g: "deliver_frame gui (simulate_channel_gui f flag d) = Inr gui1" and
    s: "next_simulation_step flag d gui =
          Inr (completion_check (gui1\<lparr>sender := (sender gui1)
                 \<lparr>next_frame_to_send := next_frame_to_send (sender gui1) + 1\<rparr>\<rparr>))"
    by blast
  have "simulate_channel_gui f flag d = None"
    using assms(6) by (simp add: simulate_channel_gui_def)
  with g have "gui1 = gui" by (simp add: deliver_frame_def)
  with s show ?thesis by simp
qed

section \<open>The simulation of \<^verbatim>\<open>Hello\<close>\<close>

lemma start_hello: "start_simulation [72, 101, 108, 108, 111] = Some hello_simulator"
  by (simp add: start_simulation_def hello_simulator_def Let_def)

lemma frames_sent_0: "frames_sent 0 = hello_simulator"
  by (simp add: frames_sent_def hello_simulator_def init_node_def)

lemma frames_sent_lost:
  assumes "0 \<le> k" and "k < 3"
  shows "next_simulation_step flag lost_draw (frames_sent k) = Inr (frames_sent (k + 1))"
proof -
  have "next_simulation_step flag lost_draw (frames_sent k) =
          Inr (completion_check ((frames_sent k)\<lparr>sender := (sender (frames_sent k))
                 \<lparr>next_frame_to_send := next_frame_to_send (sender (frames_sent k)) + 1\<rparr>\<rparr>))"
    using assms
    by (intro lost_step)
       (simp_all add: frames_sent_def hello_simulator_def init_node_def can_send_new_frame_def
          lost_draw_def)
  also have "completion_check ((frames_sent k)\<lparr>sender := (sender (frames_sent k))
                 \<lparr>next_frame_to_send := next_frame_to_send (sender (frames_sent k)) + 1\<rparr>\<rparr>)
             = frames_sent (k + 1)"
    by (simp add: completion_check_def frames_sent_def hello_simulator_def init_node_def)
  finally show ?thesis .
qed

lemma reachable_frames_sent_3: "reachable (frames_sent 3)"
proof -
  have s0: "next_simulation_step False lost_draw (frames_sent 0) = Inr (frames_sent 1)"
    using frames_sent_lost [of 0 False] by simp
  have s1: "next_simulation_step False lost_draw (frames_sent 1) = Inr (frames_sent 2)"
    using frames_sent_lost [of 1 False] by simp
  have s2: "next_simulation_step False lost_draw (frames_sent 2) = Inr (frames_sent 3)"
    using frames_sent_lost [of 2 False] by simp
  have "reachable (frames_sent 0)"
    unfolding frames_sent_0 using start_hello by (rule reachable.start)
  then have "reachable (frames_sent 1)" using s0 by (rule reachable.step)
  then have "reachable (frames_sent 2)" using s1 by (rule reachable.step)
  then show ?thesis using s2 by (rule reachable.step)
qed

text \<open>C3, witness: \<^verbatim>\<open>Hello\<close> after three steps whose frames were lost, where the
  difference is the whole window, and the same state after the acknowledgment of frame
  0 reaches the sender.\<close>

theorem flow_control_invariant_witness:
  "reachable (frames_sent 3) \<and>
   next_frame_to_send (sender (frames_sent 3)) - expected_frame_ack (sender (frames_sent 3)) = 3 \<and>
   next_frame_to_send (sender (frames_sent 3)) - expected_frame_ack (sender (frames_sent 3))
     \<le> window_size (sender (frames_sent 3)) \<and>
   reachable ((frames_sent 3)\<lparr>sender := receive_ack (sender (frames_sent 3)) 0\<rparr>) \<and>
   next_frame_to_send (sender ((frames_sent 3)\<lparr>sender := receive_ack (sender (frames_sent 3)) 0\<rparr>))
     - expected_frame_ack (sender ((frames_sent 3)\<lparr>sender := receive_ack (sender (frames_sent 3)) 0\<rparr>))
     \<le> window_size (sender ((frames_sent 3)\<lparr>sender := receive_ack (sender (frames_sent 3)) 0\<rparr>))"
proof -
  have r: "reachable (frames_sent 3)" by (rule reachable_frames_sent_3)
  then have a: "reachable ((frames_sent 3)\<lparr>sender := receive_ack (sender (frames_sent 3)) 0\<rparr>)"
    by (rule reachable.ack)
  have "next_frame_to_send (sender (frames_sent 3)) - expected_frame_ack (sender (frames_sent 3)) = 3"
    by (simp add: frames_sent_def hello_simulator_def init_node_def)
  with flow_control_invariant [OF r] flow_control_invariant [OF a] r a show ?thesis
    by simp
qed

section \<open>Sending without waiting for the outcome\<close>

text \<open>
  C5: in a reachable, running simulation whose sender can send, the step returns and
  \<^verbatim>\<open>next_frame_to_send\<close> is one more than before, whatever the channel draws (frame
  delivered, lost or corrupted). When the frame is lost the window base
  \<^verbatim>\<open>expected_frame_ack\<close> is unchanged; in particular, after the loss of the first frame
  of a simulation just started, \<^verbatim>\<open>next_frame_to_send\<close> is 1 and the window base is 0.
\<close>

theorem send_advances_pointer:
  assumes "reachable gui" and "is_running gui" and "can_send_new_frame (sender gui)"
  shows "\<exists>gui'. next_simulation_step flag d gui = Inr gui' \<and>
           next_frame_to_send (sender gui') = next_frame_to_send (sender gui) + 1 \<and>
           (lost d \<longrightarrow> expected_frame_ack (sender gui') = expected_frame_ack (sender gui)) \<and>
           (lost d \<and> (\<exists>data_input. start_simulation data_input = Some gui) \<longrightarrow>
              next_frame_to_send (sender gui') = 1 \<and> expected_frame_ack (sender gui') = 0)"
proof -
  from reachable_nodes [OF assms(1)] have inv:
    "0 \<le> next_frame_to_send (sender gui)"
    "polynomial (sender gui) = ''1011''" "polynomial (receiver gui) = ''1011''"
    by simp_all
  from step_send [OF assms(2,3) inv, of flag d] obtain c f gui1 where
    g: "deliver_frame gui (simulate_channel_gui f flag d) = Inr gui1" and
    s: "next_simulation_step flag d gui =
          Inr (completion_check (gui1\<lparr>sender := (sender gui1)
                 \<lparr>next_frame_to_send := next_frame_to_send (sender gui1) + 1\<rparr>\<rparr>))"
    by blast
  let ?gui' = "completion_check (gui1\<lparr>sender := (sender gui1)
                 \<lparr>next_frame_to_send := next_frame_to_send (sender gui1) + 1\<rparr>\<rparr>)"
  have n: "next_frame_to_send (sender ?gui') = next_frame_to_send (sender gui) + 1"
    using deliver_frame_window [OF g] by simp
  have l: "expected_frame_ack (sender ?gui') = expected_frame_ack (sender gui)" if "lost d"
  proof -
    from that have "simulate_channel_gui f flag d = None" by (simp add: simulate_channel_gui_def)
    with g have "gui1 = gui" by (simp add: deliver_frame_def)
    then show ?thesis by simp
  qed
  have st: "next_frame_to_send (sender gui) = 0 \<and> expected_frame_ack (sender gui) = 0"
    if "start_simulation data_input = Some gui" for data_input
    using that by (auto simp: start_simulation_def init_node_def Let_def split: if_splits)
  from s n l st show ?thesis by auto
qed


lemma hello_sends:
  "reachable hello_simulator \<and> is_running hello_simulator \<and>
   can_send_new_frame (sender hello_simulator)"
proof -
  have "reachable hello_simulator" using start_hello by (rule reachable.start)
  then show ?thesis
    by (simp add: hello_simulator_def init_node_def can_send_new_frame_def)
qed

text \<open>C5, witness: the first step of \<^verbatim>\<open>Hello\<close> with the frame lost, with a bit of the frame
  flipped, and with the frame delivered.\<close>

theorem send_advances_pointer_witness:
  "reachable hello_simulator \<and> is_running hello_simulator \<and>
   can_send_new_frame (sender hello_simulator) \<and> lost lost_draw \<and>
   start_simulation [72, 101, 108, 108, 111] = Some hello_simulator \<and>
   next_simulation_step False lost_draw hello_simulator = Inr (frames_sent 1) \<and>
   next_frame_to_send (sender (frames_sent 1)) = 1 \<and>
   expected_frame_ack (sender (frames_sent 1)) = 0 \<and>
   (\<exists>gui'. next_simulation_step True error_draw hello_simulator = Inr gui' \<and>
           next_frame_to_send (sender gui') = next_frame_to_send (sender hello_simulator) + 1) \<and>
   (\<exists>gui'. next_simulation_step False clean_draw hello_simulator = Inr gui' \<and>
           next_frame_to_send (sender gui') = next_frame_to_send (sender hello_simulator) + 1)"
proof -
  note h = hello_sends
  have l: "lost lost_draw" by (simp add: lost_draw_def)
  have s: "next_simulation_step False lost_draw hello_simulator = Inr (frames_sent 1)"
    using frames_sent_lost [of 0 False] by (simp add: frames_sent_0)
  from send_advances_pointer [of hello_simulator False lost_draw] h l start_hello s
  have a: "next_frame_to_send (sender (frames_sent 1)) = 1 \<and>
           expected_frame_ack (sender (frames_sent 1)) = 0"
    by auto
  from send_advances_pointer [of hello_simulator True error_draw] h
  have b: "\<exists>gui'. next_simulation_step True error_draw hello_simulator = Inr gui' \<and>
           next_frame_to_send (sender gui') = next_frame_to_send (sender hello_simulator) + 1"
    by blast
  from send_advances_pointer [of hello_simulator False clean_draw] h
  have c: "\<exists>gui'. next_simulation_step False clean_draw hello_simulator = Inr gui' \<and>
           next_frame_to_send (sender gui') = next_frame_to_send (sender hello_simulator) + 1"
    by blast
  from h l start_hello s a b c show ?thesis by simp
qed

section \<open>Frames that are lost or fail the check\<close>

text \<open>
  C7: \<^verbatim>\<open>process_received_frame\<close> with the sequence number \<^verbatim>\<open>None\<close> returns no
  acknowledgment, delivers nothing and leaves the node as it was. In a step that sends,
  when the channel loses the frame or \<^verbatim>\<open>unframe_data\<close> reports the received frame as
  corrupted, the step returns and the receiver after the step is the receiver before it.
\<close>

theorem corrupted_frame_ignored:
  "process_received_frame self None data = (None, [], self) \<and>
   (reachable gui \<and> is_running gui \<and> can_send_new_frame (sender gui) \<longrightarrow>
      (\<exists>data_char frame gui'.
         py_nth (send_buffer (sender gui)) (next_frame_to_send (sender gui)) = Inr data_char \<and>
         frame_data (sender gui) data_char (next_frame_to_send (sender gui)) = Inr frame \<and>
         next_simulation_step flag d gui = Inr gui' \<and>
         (simulate_channel_gui frame flag d = None \<or>
          (\<exists>received seq_num data_unframed.
             simulate_channel_gui frame flag d = Some received \<and>
             unframe_data (receiver gui) received = Inr (seq_num, data_unframed, True))
          \<longrightarrow> receiver gui' = receiver gui)))"
proof
  show "process_received_frame self None data = (None, [], self)"
    by (simp add: process_received_frame_def)
next
  show "reachable gui \<and> is_running gui \<and> can_send_new_frame (sender gui) \<longrightarrow>
      (\<exists>data_char frame gui'.
         py_nth (send_buffer (sender gui)) (next_frame_to_send (sender gui)) = Inr data_char \<and>
         frame_data (sender gui) data_char (next_frame_to_send (sender gui)) = Inr frame \<and>
         next_simulation_step flag d gui = Inr gui' \<and>
         (simulate_channel_gui frame flag d = None \<or>
          (\<exists>received seq_num data_unframed.
             simulate_channel_gui frame flag d = Some received \<and>
             unframe_data (receiver gui) received = Inr (seq_num, data_unframed, True))
          \<longrightarrow> receiver gui' = receiver gui))"
  proof
    assume a: "reachable gui \<and> is_running gui \<and> can_send_new_frame (sender gui)"
    from a reachable_nodes [of gui] have inv:
      "0 \<le> next_frame_to_send (sender gui)"
      "polynomial (sender gui) = ''1011''" "polynomial (receiver gui) = ''1011''"
      by simp_all
    from a have run: "is_running gui" and can: "can_send_new_frame (sender gui)" by simp_all
    from step_send [OF run can inv, of flag d] obtain c f gui1 where
      c: "py_nth (send_buffer (sender gui)) (next_frame_to_send (sender gui)) = Inr c" and
      f: "frame_data (sender gui) c (next_frame_to_send (sender gui)) = Inr f" and
      g: "deliver_frame gui (simulate_channel_gui f flag d) = Inr gui1" and
      s: "next_simulation_step flag d gui =
            Inr (completion_check (gui1\<lparr>sender := (sender gui1)
                   \<lparr>next_frame_to_send := next_frame_to_send (sender gui1) + 1\<rparr>\<rparr>))"
      by blast
    let ?gui' = "completion_check (gui1\<lparr>sender := (sender gui1)
                   \<lparr>next_frame_to_send := next_frame_to_send (sender gui1) + 1\<rparr>\<rparr>)"
    have "receiver ?gui' = receiver gui"
      if "simulate_channel_gui f flag d = None \<or>
          (\<exists>received seq_num data_unframed.
             simulate_channel_gui f flag d = Some received \<and>
             unframe_data (receiver gui) received = Inr (seq_num, data_unframed, True))"
    proof -
      from that g have "gui1 = gui"
        by (auto simp: deliver_frame_def pbind_def)
      then show ?thesis by simp
    qed
    with c f s show "\<exists>data_char frame gui'.
         py_nth (send_buffer (sender gui)) (next_frame_to_send (sender gui)) = Inr data_char \<and>
         frame_data (sender gui) data_char (next_frame_to_send (sender gui)) = Inr frame \<and>
         next_simulation_step flag d gui = Inr gui' \<and>
         (simulate_channel_gui frame flag d = None \<or>
          (\<exists>received seq_num data_unframed.
             simulate_channel_gui frame flag d = Some received \<and>
             unframe_data (receiver gui) received = Inr (seq_num, data_unframed, True))
          \<longrightarrow> receiver gui' = receiver gui)"
      by blast
  qed
qed

lemma hello_first_frame:
  "py_nth (send_buffer (sender hello_simulator)) (next_frame_to_send (sender hello_simulator)) = Inr [72] \<and>
   frame_data (sender hello_simulator) [72] (next_frame_to_send (sender hello_simulator))
     = Inr ''0001001000001''"
proof -
  have "frame_data (init_node ''Sender'') [72] 0 = Inr ''0001001000001''"
    by code_simp
  moreover have "frame_data (sender hello_simulator) [72] 0 = frame_data (init_node ''Sender'') [72] 0"
    by (simp add: frame_data_def hello_simulator_def)
  ultimately show ?thesis
    by (simp add: hello_simulator_def init_node_def py_nth_def)
qed

lemma flipped_frame_fails:
  "simulate_channel_gui ''0001001000001'' True error_draw = Some ''0001101000001'' \<and>
   unframe_data (receiver hello_simulator) ''0001101000001'' = Inr (None, None, True)"
proof -
  have "check_crc ''0001101000001'' ''1011'' = Inr False"
    by code_simp
  then have "unframe_data (receiver hello_simulator) ''0001101000001'' = Inr (None, None, True)"
    by (simp add: unframe_data_def hello_simulator_def pbind_def)
  then show ?thesis
    by (simp add: simulate_channel_gui_def error_draw_def)
qed

text \<open>C7, witness: the first frame of \<^verbatim>\<open>Hello\<close> with bit 4 flipped fails the CRC check.\<close>

theorem corrupted_frame_ignored_witness:
  "process_received_frame example_receiver None (Some [72]) = (None, [], example_receiver) \<and>
   reachable hello_simulator \<and> is_running hello_simulator \<and>
   can_send_new_frame (sender hello_simulator) \<and>
   py_nth (send_buffer (sender hello_simulator)) (next_frame_to_send (sender hello_simulator)) = Inr [72] \<and>
   frame_data (sender hello_simulator) [72] (next_frame_to_send (sender hello_simulator))
     = Inr ''0001001000001'' \<and>
   simulate_channel_gui ''0001001000001'' True error_draw = Some ''0001101000001'' \<and>
   unframe_data (receiver hello_simulator) ''0001101000001'' = Inr (None, None, True) \<and>
   (\<exists>gui'. next_simulation_step True error_draw hello_simulator = Inr gui' \<and>
           receiver gui' = receiver hello_simulator)"
proof -
  note t = corrupted_frame_ignored [of example_receiver "Some [72]" hello_simulator True error_draw]
  from t have p: "process_received_frame example_receiver None (Some [72]) = (None, [], example_receiver)"
    by (rule conjunct1)
  from t hello_sends obtain c f gui' where
    c: "py_nth (send_buffer (sender hello_simulator)) (next_frame_to_send (sender hello_simulator)) = Inr c" and
    f: "frame_data (sender hello_simulator) c (next_frame_to_send (sender hello_simulator)) = Inr f" and
    s: "next_simulation_step True error_draw hello_simulator = Inr gui'" and
    i: "simulate_channel_gui f True error_draw = None \<or>
          (\<exists>received seq_num data_unframed.
             simulate_channel_gui f True error_draw = Some received \<and>
             unframe_data (receiver hello_simulator) received = Inr (seq_num, data_unframed, True))
          \<longrightarrow> receiver gui' = receiver hello_simulator"
    by blast
  from c hello_first_frame have "c = [72]" by simp
  with f hello_first_frame have "f = ''0001001000001''" by simp
  with i flipped_frame_fails have "receiver gui' = receiver hello_simulator" by blast
  with s have "\<exists>gui'. next_simulation_step True error_draw hello_simulator = Inr gui' \<and>
           receiver gui' = receiver hello_simulator"
    by blast
  with p hello_sends hello_first_frame flipped_frame_fails show ?thesis by simp
qed

end
